theory Spec2Isabelle
  imports Complex_Main "HOL-Library.Sublist"
begin

section \<open>Data model\<close>

text \<open>
  The robot's servos are JavaScript objects that every pipeline stage mutates in place and
  that are reachable through several collections at once (\<^verbatim>\<open>servos.all()\<close>,
  \<^verbatim>\<open>servos.legs.left\<close>, ...). They therefore live in an explicit store, addressed by
  references; a collection is a list of references. A JavaScript reference always points
  to an object, so the store is a total function. Numbers are modelled as reals.
\<close>

type_synonym servo_ref = nat

record position =
  current :: real
  goal :: real
  neutral :: real

text \<open>\<open>'p\<close> is the internal state of a servo's PID controller.\<close>

record 'p servo =
  index :: nat
  pid :: 'p
  position :: position

text \<open>
  The servo collection is built by \<^verbatim>\<open>init\<close>, which is not part of the sources at hand;
  what its queries return is a parameter of the model: \<^verbatim>\<open>servos.all()\<close>,
  the \<^verbatim>\<open>{elbow, shoulder}\<close> pairs of \<^verbatim>\<open>servos.legs.left\<close> and
  \<^verbatim>\<open>servos.legs.right\<close>, and \<^verbatim>\<open>servos.legs.all()\<close>.
\<close>

record servoCollection =
  servos_all :: "servo_ref list"
  legs_left :: "(servo_ref \<times> servo_ref) list"
  legs_right :: "(servo_ref \<times> servo_ref) list"
  legs_all :: "servo_ref list"

text \<open>
  The state object \<^verbatim>\<open>{ pwm, servos, leaned, settleServoFilter }\<close>. The PWM driver behind
  \<^verbatim>\<open>pwm\<close> is represented by the list of writes it has received, kept in the world
  below. An absent \<^verbatim>\<open>settleServoFilter\<close> is \<open>None\<close>.
\<close>

record 'p state =
  servos :: servoCollection
  leaned :: bool
  settleServoFilter :: "('p servo \<Rightarrow> bool) option"

text \<open>
  The context \<^verbatim>\<open>{ input, state, timeSinceLastInput }\<close> or
  \<^verbatim>\<open>{ state, timeSinceLastTick }\<close> handed through one pipeline run; a tick has no input
  (\<open>'i = unit\<close>).
\<close>

record ('i, 'p) ctx =
  input :: 'i
  state :: "'p state"
  timeSince :: nat

text \<open>
  Everything that is mutated in place: the servo objects, the writes received by the PWM
  driver as triples \<open>(channel index, on, off)\<close> in the order of the calls of
  \<^verbatim>\<open>pwm.setPwm\<close>, and the module variable \<^verbatim>\<open>justLeaned\<close> of the lean transform.
\<close>

record 'p world =
  servo_store :: "servo_ref \<Rightarrow> 'p servo"
  pwm_writes :: "(nat \<times> nat \<times> real) list"
  justLeaned :: bool

text \<open>
  The PID controller is not part of the sources at hand. Its one operation
  \<^verbatim>\<open>pid.step(error)\<close> is a parameter: from the controller's state and the error it
  gives the delta and the controller's next state.
\<close>

type_synonym 'p pid_step = "'p \<Rightarrow> real \<Rightarrow> real \<times> 'p"

section \<open>The settler: \<^verbatim>\<open>settleServos\<close>\<close>

text \<open>
  The test at the head of the loop body:
  \<^verbatim>\<open>if (settleServoFilter && !settleServoFilter(servo)) continue;\<close>
\<close>

definition skipped :: "('p servo \<Rightarrow> bool) option \<Rightarrow> 'p servo \<Rightarrow> bool" where
  "skipped filter_opt servo =
     (case filter_opt of None \<Rightarrow> False | Some f \<Rightarrow> \<not> f servo)"

text \<open>The same test read positively: the servos the pass is to settle.\<close>

definition admits :: "('p servo \<Rightarrow> bool) option \<Rightarrow> 'p servo \<Rightarrow> bool" where
  "admits filter_opt servo = (case filter_opt of None \<Rightarrow> True | Some f \<Rightarrow> f servo)"

text \<open>
  The rest of the loop body, for the servo behind reference \<open>r\<close>:
  \<^verbatim>\<open>
    const { index, pid, position } = servo;
    const error = position.goal - position.current;
    position.current += pid.step(error);
    pwm.setPwm(index, 0, position.current);
  \<close>
\<close>

definition settle_servo :: "'p pid_step \<Rightarrow> servo_ref \<Rightarrow> 'p world \<Rightarrow> 'p world" where
  "settle_servo pstep r w =
     (let servo = servo_store w r;
          pos = position servo;
          error = goal pos - current pos;
          (delta, pid') = pstep (pid servo) error;
          pos' = pos\<lparr>current := current pos + delta\<rparr>
      in w\<lparr>servo_store := (servo_store w)(r := servo\<lparr>pid := pid', position := pos'\<rparr>),
            pwm_writes := pwm_writes w @ [(index servo, 0, current pos')]\<rparr>)"

text \<open>\<^verbatim>\<open>for (const servo of servos.all()) { ... }\<close>\<close>

fun settle_loop ::
  "'p pid_step \<Rightarrow> ('p servo \<Rightarrow> bool) option \<Rightarrow> servo_ref list \<Rightarrow> 'p world \<Rightarrow> 'p world" where
  "settle_loop pstep f [] w = w"
| "settle_loop pstep f (r # rs) w =
     (if skipped f (servo_store w r) then settle_loop pstep f rs w
      else settle_loop pstep f rs (settle_servo pstep r w))"

definition settleServos ::
  "'p pid_step \<Rightarrow> ('i, 'p) ctx \<Rightarrow> 'p world \<Rightarrow> ('i, 'p) ctx \<times> 'p world" where
  "settleServos pstep context w =
     (context,
      settle_loop pstep (settleServoFilter (state context))
        (servos_all (servos (state context))) w)"

text \<open>
  \<^verbatim>\<open>assert\<close> throws \<^verbatim>\<open>new Error()\<close> on \<^verbatim>\<open>null\<close> and \<^verbatim>\<open>undefined\<close> (\<open>None\<close>) and
  returns every other value.
\<close>

datatype error = Error

definition assert :: "'a option \<Rightarrow> error + 'a" where
  "assert x = (case x of None \<Rightarrow> Inl Error | Some v \<Rightarrow> Inr v)"

text \<open>
  \<^verbatim>\<open>
  function tick(context) {
    context = assert(settleServos(context));
    return context.state;
  }
  \<close>
  A throw leaves the world as it was when the error was raised.
\<close>

definition tick ::
  "'p pid_step \<Rightarrow> (unit, 'p) ctx \<Rightarrow> 'p world \<Rightarrow> (error + 'p state) \<times> 'p world" where
  "tick pstep context w =
     (let (context', w') = settleServos pstep context w
      in case assert (Some context') of
           Inl e \<Rightarrow> (Inl e, w')
         | Inr context'' \<Rightarrow> (Inr (state context''), w'))"

text \<open>
  Successive timer callbacks of the orchestrator, each
  \<^verbatim>\<open>state = tick({ state, timeSinceLastTick })\<close>, with the measured times given as a list.
  An error thrown by a tick is not caught by the callback and ends the run.
\<close>

fun run_ticks ::
  "'p pid_step \<Rightarrow> nat list \<Rightarrow> 'p state \<Rightarrow> 'p world \<Rightarrow> (error + 'p state) \<times> 'p world" where
  "run_ticks pstep [] st w = (Inr st, w)"
| "run_ticks pstep (t # ts) st w =
     (case tick pstep \<lparr>input = (), state = st, timeSince = t\<rparr> w of
        (Inl e, w') \<Rightarrow> (Inl e, w')
      | (Inr st', w') \<Rightarrow> run_ticks pstep ts st' w')"

text \<open>The writes the PWM driver received between world \<open>w\<close> and the later world \<open>w'\<close>.\<close>

definition new_writes :: "'p world \<Rightarrow> 'p world \<Rightarrow> (nat \<times> nat \<times> real) list" where
  "new_writes w w' = drop (length (pwm_writes w)) (pwm_writes w')"

text \<open>A servo's distance to its goal, \<open>|goal - current|\<close>.\<close>

definition distance :: "'p world \<Rightarrow> servo_ref \<Rightarrow> real" where
  "distance w r = \<bar>goal (position (servo_store w r)) - current (position (servo_store w r))\<bar>"

text \<open>
  Controllers that are purely proportional with gain \<open>k\<close>: a set \<open>G\<close> of controller
  states that \<^verbatim>\<open>step\<close> never leaves and in which \<^verbatim>\<open>step(error)\<close> returns \<open>k * error\<close>.
  \<open>p_step k\<close> is the controller of this kind that keeps no memory at all.
\<close>

definition proportional :: "'p pid_step \<Rightarrow> real \<Rightarrow> 'p set \<Rightarrow> bool" where
  "proportional pstep k G = (\<forall>p \<in> G. \<forall>e. fst (pstep p e) = k * e \<and> snd (pstep p e) \<in> G)"

definition p_step :: "real \<Rightarrow> unit pid_step" where
  "p_step k p error = (k * error, p)"

text \<open>The servo object after the loop body has run on it.\<close>

definition settled :: "'p pid_step \<Rightarrow> 'p servo \<Rightarrow> 'p servo" where
  "settled pstep servo =
     (let error = goal (position servo) - current (position servo)
      in servo\<lparr>pid := snd (pstep (pid servo) error),
               position := (position servo)
                 \<lparr>current := current (position servo) + fst (pstep (pid servo) error)\<rparr>\<rparr>)"

section \<open>The input pipeline: \<^verbatim>\<open>normalizeInput\<close> and \<^verbatim>\<open>lean\<close>\<close>

text \<open>
  An input sample \<^verbatim>\<open>{ axes: { left, right }, buttonsPressed }\<close>. In a raw sample the axes
  are joystick readings of a type \<open>'j\<close> that the pipeline never looks into and
  \<^verbatim>\<open>buttonsPressed\<close> is a list of button ids; in a normalized sample the axes carry the
  vector derived from the reading and \<^verbatim>\<open>buttonsPressed\<close> is a set.
\<close>

record 'j joystick_vector =
  joystick :: 'j
  axis_x :: real
  axis_y :: real

record ('a, 'b) input_sample =
  axes_left :: 'a
  axes_right :: 'a
  buttonsPressed :: 'b

type_synonym 'j raw_input = "('j, nat list) input_sample"

type_synonym 'j normal_input = "('j joystick_vector, nat set) input_sample"

text \<open>
  \<^verbatim>\<open>vectorFromJoystick\<close> and \<^verbatim>\<open>scaleAxisToServo\<close> come from \<^verbatim>\<open>util\<close>, which is not part
  of the sources at hand: both are parameters, \<open>vectorFromJoystick\<close> giving the pair
  \<open>(x, y)\<close> for a reading and \<open>scale\<close> the goal position for an axis value and a servo.
  \<^verbatim>\<open>
  function vectorizeJoystick(joystick) {
    return { ...joystick, ...vectorFromJoystick(joystick) };
  }
  \<close>
\<close>

definition vectorizeJoystick :: "('j \<Rightarrow> real \<times> real) \<Rightarrow> 'j \<Rightarrow> 'j joystick_vector" where
  "vectorizeJoystick vectorFromJoystick j =
     \<lparr>joystick = j, axis_x = fst (vectorFromJoystick j), axis_y = snd (vectorFromJoystick j)\<rparr>"

definition normalizeInput ::
  "('j \<Rightarrow> real \<times> real) \<Rightarrow> ('j raw_input, 'p) ctx \<Rightarrow> ('j normal_input, 'p) ctx" where
  "normalizeInput vectorFromJoystick context =
     \<lparr>input =
        \<lparr>axes_left = vectorizeJoystick vectorFromJoystick (axes_left (input context)),
         axes_right = vectorizeJoystick vectorFromJoystick (axes_right (input context)),
         buttonsPressed = set (buttonsPressed (input context))\<rparr>,
      state = state context,
      timeSince = timeSince context\<rparr>"

type_synonym 'p scale = "real \<Rightarrow> 'p servo \<Rightarrow> real"

text \<open>The assignment \<^verbatim>\<open>servo.position.goal = v\<close> to the servo behind reference \<open>r\<close>.\<close>

definition set_goal :: "servo_ref \<Rightarrow> real \<Rightarrow> 'p world \<Rightarrow> 'p world" where
  "set_goal r v w =
     w\<lparr>servo_store :=
         (servo_store w)(r := (servo_store w r)\<lparr>position := (position (servo_store w r))\<lparr>goal := v\<rparr>\<rparr>)\<rparr>"

text \<open>
  One of the two loops over a side's legs, with the axis value \<open>ex\<close> for the elbows and
  \<open>sy\<close> for the shoulders:
  \<^verbatim>\<open>
    for (let { elbow, shoulder } of legs.left) {
      elbow.position.goal    = scaleAxisToServo(-x, elbow);
      shoulder.position.goal = scaleAxisToServo(y,  shoulder);
    }
  \<close>
  \<^verbatim>\<open>scaleAxisToServo\<close> is handed the servo object as it is at the time of the call.
\<close>

fun lean_legs ::
  "'p scale \<Rightarrow> real \<Rightarrow> real \<Rightarrow> (servo_ref \<times> servo_ref) list \<Rightarrow> 'p world \<Rightarrow> 'p world" where
  "lean_legs scale ex sy [] w = w"
| "lean_legs scale ex sy ((elbow, shoulder) # legs) w =
     (let w1 = set_goal elbow (scale ex (servo_store w elbow)) w;
          w2 = set_goal shoulder (scale sy (servo_store w1 shoulder)) w1
      in lean_legs scale ex sy legs w2)"

text \<open>
  \<^verbatim>\<open>
    for (const servo of legs.all()) {
      servo.position.goal = servo.position.neutral;
    }
  \<close>
\<close>

fun reset_goals :: "servo_ref list \<Rightarrow> 'p world \<Rightarrow> 'p world" where
  "reset_goals [] w = w"
| "reset_goals (r # rs) w =
     reset_goals rs (set_goal r (neutral (position (servo_store w r))) w)"

text \<open>
  The two branches of \<^verbatim>\<open>lean\<close> that write: the branch taken while the lean button is
  pressed, with its loop over the left legs followed by its loop over the right legs, and
  the branch taken when the button is not pressed and \<^verbatim>\<open>justLeaned\<close> is set.
\<close>

definition lean_pressed ::
  "'p scale \<Rightarrow> real \<Rightarrow> real \<Rightarrow> servoCollection \<Rightarrow> 'p world \<Rightarrow> 'p world" where
  "lean_pressed scale x y collection w =
     (let w1 = w\<lparr>justLeaned := True\<rparr>;
          w2 = lean_legs scale (- x) y (legs_left collection) w1
      in lean_legs scale (- x) (- y) (legs_right collection) w2)"

definition lean_released :: "servoCollection \<Rightarrow> 'p world \<Rightarrow> 'p world" where
  "lean_released collection w = reset_goals (legs_all collection) (w\<lparr>justLeaned := False\<rparr>)"

text \<open>
  \<^verbatim>\<open>
  function lean(context) {
    const { input: { axes: { right: { x, y } }, buttonsPressed }, state } = context;
    const shouldLean = buttonsPressed.has(4);
    if (shouldLean) { justLeaned = true; ... }
    else if (justLeaned) { justLeaned = false; ... }
    return { ...context, state: { ...state, leaned: shouldLean } };
  }
  \<close>
\<close>

definition lean ::
  "'p scale \<Rightarrow> ('j normal_input, 'p) ctx \<Rightarrow> 'p world \<Rightarrow> ('j normal_input, 'p) ctx \<times> 'p world" where
  "lean scale context w =
     (let x = axis_x (axes_right (input context));
          y = axis_y (axes_right (input context));
          st = state context;
          shouldLean = (4 \<in> buttonsPressed (input context));
          w' = (if shouldLean then lean_pressed scale x y (servos st) w
                else if justLeaned w then lean_released (servos st) w
                else w)
      in (context\<lparr>state := st\<lparr>leaned := shouldLean\<rparr>\<rparr>, w'))"

text \<open>
  A sequence of calls of \<^verbatim>\<open>lean\<close>, one per context, on the world the call before left
  (\<^verbatim>\<open>justLeaned\<close> persists from call to call): the list of the worlds after each call.
\<close>

fun lean_run :: "'p scale \<Rightarrow> ('j normal_input, 'p) ctx list \<Rightarrow> 'p world \<Rightarrow> 'p world list" where
  "lean_run scale [] w = []"
| "lean_run scale (c # cs) w = snd (lean scale c w) # lean_run scale cs (snd (lean scale c w))"

text \<open>The flattened list of the servos of a side's legs; \<^verbatim>\<open>buttonsPressed.has(4)\<close>.\<close>

definition leg_refs :: "(servo_ref \<times> servo_ref) list \<Rightarrow> servo_ref list" where
  "leg_refs legs = concat (map (\<lambda>(elbow, shoulder). [elbow, shoulder]) legs)"

definition lean_button :: "('j normal_input, 'p) ctx \<Rightarrow> bool" where
  "lean_button context = (4 \<in> buttonsPressed (input context))"

section \<open>The orchestrator's input step\<close>

text \<open>
  \<^verbatim>\<open>move\<close> and \<^verbatim>\<open>stand\<close> are not part of the sources at hand. Each is a parameter: a
  stage takes a context, may write to the world, and returns a context or an absent
  result (\<open>None\<close>).
\<close>

type_synonym ('j, 'p) stage =
  "('j normal_input, 'p) ctx \<Rightarrow> 'p world \<Rightarrow> ('j normal_input, 'p) ctx option \<times> 'p world"

text \<open>
  \<^verbatim>\<open>
  function step(context) {
    context = assert(normalizeInput(context));
    context = assert(lean(context));
    context = assert(move(context));
    context = assert(stand(context));
    return context.state;
  }
  \<close>
  A throw leaves the world as it was when the error was raised.
\<close>

definition step ::
  "('j \<Rightarrow> real \<times> real) \<Rightarrow> 'p scale \<Rightarrow> ('j, 'p) stage \<Rightarrow> ('j, 'p) stage \<Rightarrow>
   ('j raw_input, 'p) ctx \<Rightarrow> 'p world \<Rightarrow> (error + 'p state) \<times> 'p world" where
  "step vectorFromJoystick scale move stand context w =
     (case assert (Some (normalizeInput vectorFromJoystick context)) of
        Inl e \<Rightarrow> (Inl e, w)
      | Inr c1 \<Rightarrow>
          (let (r2, w2) = lean scale c1 w
           in case assert (Some r2) of
                Inl e \<Rightarrow> (Inl e, w2)
              | Inr c2 \<Rightarrow>
                  (let (r3, w3) = move c2 w2
                   in case assert r3 of
                        Inl e \<Rightarrow> (Inl e, w3)
                      | Inr c3 \<Rightarrow>
                          (let (r4, w4) = stand c3 w3
                           in case assert r4 of
                                Inl e \<Rightarrow> (Inl e, w4)
                              | Inr c4 \<Rightarrow> (Inr (state c4), w4)))))"

text \<open>
  The orchestrator holds the state in the variable \<^verbatim>\<open>state\<close> of \<^verbatim>\<open>main\<close>; its input
  listener is
  \<^verbatim>\<open>(input, timeSinceLastInput) => { state = step({ input, state, timeSinceLastInput }); }\<close>.
  When \<^verbatim>\<open>step\<close> throws, the assignment does not happen and the error leaves the listener.
\<close>

record 'p robot =
  robot_state :: "'p state"
  robot_world :: "'p world"

definition on_input ::
  "('j \<Rightarrow> real \<times> real) \<Rightarrow> 'p scale \<Rightarrow> ('j, 'p) stage \<Rightarrow> ('j, 'p) stage \<Rightarrow>
   'j raw_input \<Rightarrow> nat \<Rightarrow> 'p robot \<Rightarrow> error option \<times> 'p robot" where
  "on_input vectorFromJoystick scale move stand inp timeSinceLastInput robot =
     (case step vectorFromJoystick scale move stand
             \<lparr>input = inp, state = robot_state robot, timeSince = timeSinceLastInput\<rparr>
             (robot_world robot) of
        (Inl e, w') \<Rightarrow> (Some e, robot\<lparr>robot_world := w'\<rparr>)
      | (Inr st', w') \<Rightarrow> (None, \<lparr>robot_state = st', robot_world = w'\<rparr>))"



definition idle_stage :: "('j, 'p) stage" where
  "idle_stage context w = (Some context, w)"



section \<open>The startup ramp: \<^verbatim>\<open>setStartupSettlerFilter\<close>\<close>

text \<open>
  Modelled from the spec: \<^verbatim>\<open>servos.odd()\<close> and \<^verbatim>\<open>servos.even()\<close> of the servo collection,
  which is not part of the sources at hand, partition \<^verbatim>\<open>all()\<close> by the parity of the
  servo's index.
\<close>

definition servos_odd :: "'p world \<Rightarrow> servoCollection \<Rightarrow> servo_ref list" where
  "servos_odd w collection =
     filter (\<lambda>r. odd (index (servo_store w r))) (servos_all collection)"

definition servos_even :: "'p world \<Rightarrow> servoCollection \<Rightarrow> servo_ref list" where
  "servos_even w collection =
     filter (\<lambda>r. even (index (servo_store w r))) (servos_all collection)"

text \<open>
  The values the sequencer keeps in its sets are servo indices; what an exhausted iterator
  yields is \<^verbatim>\<open>undefined\<close> (\<open>None\<close>). A JavaScript \<^verbatim>\<open>Set\<close> keeps its elements in insertion
  order without repetition: a list, with \<^verbatim>\<open>add\<close>, \<^verbatim>\<open>delete\<close> and the constructor
  \<^verbatim>\<open>new Set(iterable)\<close>.
\<close>

type_synonym js_value = "nat option"

definition set_add :: "'a \<Rightarrow> 'a list \<Rightarrow> 'a list" where
  "set_add v s = (if v \<in> set s then s else s @ [v])"

definition set_delete :: "'a \<Rightarrow> 'a list \<Rightarrow> 'a list" where
  "set_delete v s = removeAll v s"

definition new_Set :: "'a list \<Rightarrow> 'a list" where
  "new_Set vs = foldl (\<lambda>s v. set_add v s) [] vs"

text \<open>
  An iterator over a set is the list of the values it has yet to yield;
  \<^verbatim>\<open>iterator.next().value\<close> gives the value and the iterator after the call.
\<close>

fun next_value :: "js_value list \<Rightarrow> js_value \<times> js_value list" where
  "next_value [] = (None, [])"
| "next_value (v # vs) = (v, vs)"

text \<open>
  \<^verbatim>\<open>
      for (let i = 1; i < index; i++) {
        servoIndex = servosIterator.next().value;
      }
  \<close>
  from the loop variable \<open>i\<close> on, giving the final \<^verbatim>\<open>servoIndex\<close>.
\<close>

function advance :: "int \<Rightarrow> int \<Rightarrow> js_value \<Rightarrow> js_value list \<Rightarrow> js_value" where
  "advance i index' servoIndex servosIterator =
     (if i < index'
      then (let (servoIndex', servosIterator') = next_value servosIterator
            in advance (i + 1) index' servoIndex' servosIterator')
      else servoIndex)"
  by pat_completeness auto
termination
  by (relation "measure (\<lambda>(i, index', servoIndex, servosIterator). nat (index' - i))") auto

declare advance.simps [simp del]

text \<open>
  The choice of the servo to activate, for the value \<open>r\<close> that \<^verbatim>\<open>Math.random()\<close> returns:
  \<^verbatim>\<open>
      let index = Math.floor(Math.random() * servosRemaining.size);
      let servosIterator = servosRemaining.values()
      let servoIndex = servosIterator.next().value;
      for (let i = 1; i < index; i++) { ... }
  \<close>
\<close>

definition pick_servo :: "real \<Rightarrow> js_value list \<Rightarrow> js_value" where
  "pick_servo r servosRemaining =
     (let index' = \<lfloor>r * real (length servosRemaining)\<rfloor>;
          (servoIndex, servosIterator) = next_value servosRemaining
      in advance 1 index' servoIndex servosIterator)"

text \<open>
  The sequencer is an asynchronous function: it runs until it has to wait, and is resumed
  when the wait is over; the input listener and the timer run in between. Its local
  variables and the place where it is suspended make up the record below:
  \<^verbatim>\<open>servosActive\<close>; \<^verbatim>\<open>servosRemaining\<close>, the set the \<^verbatim>\<open>for\<close> loop is at; the sets the
  \<^verbatim>\<open>for\<close> loop has still to come to; and whether the function waits in the \<^verbatim>\<open>while\<close> loop
  (50 ms), waits after the \<^verbatim>\<open>while\<close> loop (200 ms), or has returned.
\<close>

datatype ramp_pc = Wait_50 | Wait_200 | Returned

record ramp =
  servosActive :: "js_value list"
  servosRemaining :: "js_value list"
  sets_ahead :: "js_value list list"
  pc :: ramp_pc

text \<open>
  The body of the \<^verbatim>\<open>while\<close> loop up to its wait:
  \<^verbatim>\<open>
      servosActive.add(servoIndex);
      servosRemaining.delete(servoIndex);
  \<close>
\<close>

definition activate :: "real \<Rightarrow> ramp \<Rightarrow> ramp" where
  "activate r ramp =
     (let servoIndex = pick_servo r (servosRemaining ramp)
      in ramp\<lparr>servosActive := set_add servoIndex (servosActive ramp),
              servosRemaining := set_delete servoIndex (servosRemaining ramp)\<rparr>)"

text \<open>
  From the head of \<^verbatim>\<open>while (servosRemaining.size)\<close> to the next wait: one activation and
  the wait of 50 ms, or the end of the loop and the wait of 200 ms.
\<close>

definition while_loop :: "real \<Rightarrow> ramp \<Rightarrow> ramp" where
  "while_loop r ramp =
     (if length (servosRemaining ramp) \<noteq> 0 then (activate r ramp)\<lparr>pc := Wait_50\<rparr>
      else ramp\<lparr>pc := Wait_200\<rparr>)"

text \<open>
  From the head of \<^verbatim>\<open>for (let servosRemaining of [ evenServos, oddServos ])\<close> to the next
  wait, or to the return of the function when no set is left.
\<close>

definition for_loop :: "real \<Rightarrow> ramp \<Rightarrow> ramp" where
  "for_loop r ramp =
     (case sets_ahead ramp of
        [] \<Rightarrow> ramp\<lparr>pc := Returned\<rparr>
      | s # ss \<Rightarrow> while_loop r (ramp\<lparr>servosRemaining := s, sets_ahead := ss\<rparr>))"

text \<open>
  The filter \<^verbatim>\<open>({ index }) => servosActive.has(index)\<close> is a closure over \<^verbatim>\<open>servosActive\<close>:
  whenever it is called, it reads the set as it is then. States are values here, so the
  state that the sequencer leaves at a wait holds the predicate for the content of the set
  at that wait. When the function returns it has run \<^verbatim>\<open>delete state.settleServoFilter\<close>.
\<close>

definition startup_filter :: "js_value list \<Rightarrow> 'p servo \<Rightarrow> bool" where
  "startup_filter active servo = (Some (index servo) \<in> set active)"

definition leave :: "ramp \<Rightarrow> 'p state \<Rightarrow> 'p state" where
  "leave ramp st =
     (case pc ramp of
        Returned \<Rightarrow> st\<lparr>settleServoFilter := None\<rparr>
      | _ \<Rightarrow> st\<lparr>settleServoFilter := Some (startup_filter (servosActive ramp))\<rparr>)"

text \<open>
  The call \<^verbatim>\<open>setStartupSettlerFilter(state)\<close>, up to its first wait:
  \<^verbatim>\<open>
    let servosActive = new Set;
    let oddServos  = new Set([ ...state.servos.odd() ].map(s => s.index));
    let evenServos = new Set([ ...state.servos.even() ].map(s => s.index));
    state.settleServoFilter = ({ index }) => servosActive.has(index);
    for (let servosRemaining of [ evenServos, oddServos ]) { ... }
  \<close>
  \<open>r\<close> is the value that \<^verbatim>\<open>Math.random()\<close> returns if it is called before the wait.
\<close>

definition setStartupSettlerFilter :: "'p world \<Rightarrow> 'p state \<Rightarrow> real \<Rightarrow> ramp \<times> 'p state" where
  "setStartupSettlerFilter w st r =
     (let oddServos = new_Set (map (\<lambda>s. Some (index (servo_store w s))) (servos_odd w (servos st)));
          evenServos = new_Set (map (\<lambda>s. Some (index (servo_store w s))) (servos_even w (servos st)));
          ramp = for_loop r
                   \<lparr>servosActive = [], servosRemaining = [],
                    sets_ahead = [evenServos, oddServos], pc = Wait_200\<rparr>
      in (ramp, leave ramp st))"

text \<open>
  The sequencer resumed after a wait, up to its next wait or its return. Once it has
  returned there is nothing to resume.
\<close>

definition resume :: "real \<Rightarrow> ramp \<times> 'p state \<Rightarrow> ramp \<times> 'p state" where
  "resume r rs =
     (case pc (fst rs) of
        Wait_50 \<Rightarrow> (let ramp = while_loop r (fst rs) in (ramp, leave ramp (snd rs)))
      | Wait_200 \<Rightarrow> (let ramp = for_loop r (fst rs) in (ramp, leave ramp (snd rs)))
      | Returned \<Rightarrow> rs)"

text \<open>
  A run of the sequencer: the call and then one resumption per value of the list, each
  value being what \<^verbatim>\<open>Math.random()\<close> returns if that resumption calls it. \<open>ramp_trace\<close>
  lists what the sequencer leaves at each wait, from a given point on.
\<close>

fun ramp_trace :: "real list \<Rightarrow> ramp \<times> 'p state \<Rightarrow> (ramp \<times> 'p state) list" where
  "ramp_trace [] rs = [rs]"
| "ramp_trace (r # draws) rs = rs # ramp_trace draws (resume r rs)"

definition ramp_run :: "real list \<Rightarrow> ramp \<times> 'p state \<Rightarrow> ramp \<times> 'p state" where
  "ramp_run draws rs = last (ramp_trace draws rs)"

text \<open>The values that \<^verbatim>\<open>Math.random()\<close> can return.\<close>

definition random_value :: "real \<Rightarrow> bool" where
  "random_value r = (0 \<le> r \<and> r < 1)"

subsection \<open>Notions for the proofs about the ramp\<close>

text \<open>
  All the values the sequencer holds: active, remaining, and in the sets ahead. While it
  runs on values of \<^verbatim>\<open>Math.random()\<close>, no value occurs twice among them, outside the
  \<^verbatim>\<open>while\<close> loop the set it was at is empty, and when it returns no set is ahead.
  \<open>steps_left\<close> counts the resumptions up to the return of the function.
\<close>

definition ramp_values :: "ramp \<Rightarrow> js_value list" where
  "ramp_values ramp = servosActive ramp @ servosRemaining ramp @ concat (sets_ahead ramp)"

definition ramp_inv :: "ramp \<Rightarrow> bool" where
  "ramp_inv ramp =
     (distinct (ramp_values ramp) \<and>
      (pc ramp \<noteq> Wait_50 \<longrightarrow> servosRemaining ramp = []) \<and>
      (pc ramp = Returned \<longrightarrow> sets_ahead ramp = []))"

fun ahead_steps :: "js_value list list \<Rightarrow> nat" where
  "ahead_steps [] = 1"
| "ahead_steps (s # ss) = length s + 1 + ahead_steps ss"

definition steps_left :: "ramp \<Rightarrow> nat" where
  "steps_left ramp =
     (case pc ramp of
        Returned \<Rightarrow> 0
      | Wait_50 \<Rightarrow> length (servosRemaining ramp) + 1 + ahead_steps (sets_ahead ramp)
      | Wait_200 \<Rightarrow> ahead_steps (sets_ahead ramp))"

text \<open>
  The sequencer's variables as the call sets them up, before the \<^verbatim>\<open>for\<close> loop is entered;
  and a state that holds the filter as the sequencer last left it.
\<close>

definition ramp_init :: "'p world \<Rightarrow> 'p state \<Rightarrow> ramp" where
  "ramp_init w st =
     \<lparr>servosActive = [], servosRemaining = [],
      sets_ahead =
        [new_Set (map (\<lambda>s. Some (index (servo_store w s))) (servos_even w (servos st))),
         new_Set (map (\<lambda>s. Some (index (servo_store w s))) (servos_odd w (servos st)))],
      pc = Wait_200\<rparr>"

definition linked :: "ramp \<times> 'p state \<Rightarrow> bool" where
  "linked rs = (snd rs = leave (fst rs) (snd rs))"

section \<open>A concrete rig\<close>

text \<open>
  A small rig on which the theorems below are instantiated: four servos, the servo behind
  reference \<open>r\<close> on channel \<open>r\<close>, at position 0 with goal \<open>4 r + 8\<close>; the left leg
  has elbow 1 and shoulder 0, the right leg elbow 3 and shoulder 2.
\<close>

definition rig :: servoCollection where
  "rig = \<lparr>servos_all = [0, 1, 2, 3], legs_left = [(1, 0)], legs_right = [(3, 2)],
          legs_all = [0, 1, 2, 3]\<rparr>"

definition rig_store :: "servo_ref \<Rightarrow> unit servo" where
  "rig_store r =
     \<lparr>index = r, pid = (), position = \<lparr>current = 0, goal = 4 * real r + 8, neutral = 1\<rparr>\<rparr>"

definition rig_world :: "unit world" where
  "rig_world = \<lparr>servo_store = rig_store, pwm_writes = [], justLeaned = False\<rparr>"

text \<open>
  The filter that the earlier version of the orchestrator installs at boot,
  \<^verbatim>\<open>({ index }) => index % 2 === 0\<close>, and a tick context that carries it.
\<close>

definition even_index_filter :: "'p servo \<Rightarrow> bool" where
  "even_index_filter servo = (index servo mod 2 = 0)"

definition rig_tick :: "(unit, unit) ctx" where
  "rig_tick =
     \<lparr>input = (),
      state = \<lparr>servos = rig, leaned = False, settleServoFilter = Some even_index_filter\<rparr>,
      timeSince = 10\<rparr>"

text \<open>
  An input with the right stick at \<open>(x, y) = (0.5, -0.3)\<close> and the lean button pressed or
  not, and a calibration.
\<close>

definition rig_scale :: "unit scale" where
  "rig_scale v servo = 10 * v + real (index servo)"

definition rig_input :: "bool \<Rightarrow> (unit normal_input, unit) ctx" where
  "rig_input pressed =
     \<lparr>input =
        \<lparr>axes_left = \<lparr>joystick = (), axis_x = 0, axis_y = 0\<rparr>,
         axes_right = \<lparr>joystick = (), axis_x = 1/2, axis_y = - 3/10\<rparr>,
         buttonsPressed = (if pressed then {4} else {})\<rparr>,
      state = \<lparr>servos = rig, leaned = False, settleServoFilter = None\<rparr>,
      timeSince = 10\<rparr>"

text \<open>
  A raw input sample with the lean button held, as the orchestrator receives it, and a
  vector derivation that puts the stick at \<open>(0.5, -0.3)\<close>.
\<close>

definition rig_raw_input :: "unit raw_input" where
  "rig_raw_input = \<lparr>axes_left = (), axes_right = (), buttonsPressed = [4]\<rparr>"

definition rig_vector :: "unit \<Rightarrow> real \<times> real" where
  "rig_vector j = (1/2, - 3/10)"

definition rig_robot :: "unit robot" where
  "rig_robot =
     \<lparr>robot_state = \<lparr>servos = rig, leaned = False, settleServoFilter = None\<rparr>,
      robot_world = rig_world\<rparr>"

text \<open>The rig's state before the sequencer is called, and values of \<^verbatim>\<open>Math.random()\<close>.\<close>

definition rig_state :: "unit state" where
  "rig_state = \<lparr>servos = rig, leaned = False, settleServoFilter = None\<rparr>"

definition rig_draws :: "real list" where
  "rig_draws = [1/10, 1/2, 9/10, 3/10, 7/10, 0]"

text \<open>
  The rig after the call of the sequencer, at its first wait: what the sequencer holds
  (its variables and the state object it was called with), and the orchestrator, whose
  variable \<^verbatim>\<open>state\<close> refers to that same state object.
\<close>

definition rig_sequencer :: "ramp \<times> unit state" where
  "rig_sequencer = setStartupSettlerFilter rig_world rig_state (9/10)"

definition rig_booted :: "unit robot" where
  "rig_booted = \<lparr>robot_state = snd rig_sequencer, robot_world = rig_world\<rparr>"

section \<open>Properties of the settler\<close>

subsection \<open>One servo's read-modify-write\<close>

lemma settle_servo_store:
  "servo_store (settle_servo pstep r w) = (servo_store w)(r := settled pstep (servo_store w r))"
  by (simp add: settle_servo_def settled_def Let_def split: prod.splits)

lemma settle_servo_writes:
  "pwm_writes (settle_servo pstep r w) =
     pwm_writes w @
     [(index (servo_store w r), 0, current (position (settled pstep (servo_store w r))))]"
  by (simp add: settle_servo_def settled_def Let_def split: prod.splits)

lemma settle_servo_justLeaned: "justLeaned (settle_servo pstep r w) = justLeaned w"
  by (simp add: settle_servo_def Let_def split: prod.splits)

lemma settled_frame:
  "index (settled pstep s) = index s"
  "goal (position (settled pstep s)) = goal (position s)"
  "neutral (position (settled pstep s)) = neutral (position s)"
  by (simp_all add: settled_def Let_def)

lemma settled_current:
  "current (position (settled pstep s)) =
     current (position s) + fst (pstep (pid s) (goal (position s) - current (position s)))"
  by (simp add: settled_def Let_def)

lemma settled_pid:
  "pid (settled pstep s) = snd (pstep (pid s) (goal (position s) - current (position s)))"
  by (simp add: settled_def Let_def)

subsection \<open>The loop over \<^verbatim>\<open>servos.all()\<close>\<close>

lemma settle_loop_store:
  "distinct rs \<Longrightarrow>
   servo_store (settle_loop pstep f rs w) r =
     (if r \<in> set rs \<and> \<not> skipped f (servo_store w r) then settled pstep (servo_store w r)
      else servo_store w r)"
  by (induction rs arbitrary: w) (auto simp: settle_servo_store)

lemma settle_loop_writes:
  "distinct rs \<Longrightarrow>
   pwm_writes (settle_loop pstep f rs w) =
     pwm_writes w @
     map (\<lambda>r. (index (servo_store w r), 0, current (position (settled pstep (servo_store w r)))))
       (filter (\<lambda>r. \<not> skipped f (servo_store w r)) rs)"
  by (induction rs arbitrary: w)
    (auto simp: settle_servo_store settle_servo_writes intro!: map_cong filter_cong)

lemma settle_loop_justLeaned: "justLeaned (settle_loop pstep f rs w) = justLeaned w"
  by (induction rs arbitrary: w) (simp_all add: settle_servo_justLeaned)

lemma settle_loop_frame:
  "index (servo_store (settle_loop pstep f rs w) r) = index (servo_store w r) \<and>
   goal (position (servo_store (settle_loop pstep f rs w) r)) = goal (position (servo_store w r)) \<and>
   neutral (position (servo_store (settle_loop pstep f rs w) r)) =
     neutral (position (servo_store w r))"
  by (induction rs arbitrary: w) (simp_all add: settle_servo_store settled_frame)

lemma settle_loop_unvisited:
  "r \<notin> set rs \<Longrightarrow> servo_store (settle_loop pstep f rs w) r = servo_store w r"
  by (induction rs arbitrary: w) (auto simp: settle_servo_store)

lemma settle_loop_skipped:
  "skipped f (servo_store w r) \<Longrightarrow> servo_store (settle_loop pstep f rs w) r = servo_store w r"
proof (induction rs arbitrary: w)
  case Nil
  show ?case by simp
next
  case (Cons a rs)
  show ?case
  proof (cases "skipped f (servo_store w a)")
    case True
    with Cons show ?thesis by simp
  next
    case False
    with Cons.prems have ne: "a \<noteq> r" by auto
    then have same: "servo_store (settle_servo pstep a w) r = servo_store w r"
      by (simp add: settle_servo_store)
    with Cons.prems have "skipped f (servo_store (settle_servo pstep a w) r)" by simp
    from Cons.IH [OF this] same False show ?thesis by simp
  qed
qed

lemma skipped_iff: "skipped f s \<longleftrightarrow> \<not> admits f s"
  by (simp add: skipped_def admits_def split: option.splits)

lemma settle_loop_writes_from:
  "\<exists>new. pwm_writes (settle_loop pstep f rs w) = pwm_writes w @ new \<and>
     (\<forall>e \<in> set new. \<exists>r \<in> set rs. \<not> skipped f (servo_store w r) \<and>
        fst e = index (servo_store w r))"
proof (induction rs arbitrary: w)
  case Nil
  show ?case by simp
next
  case (Cons a rs)
  show ?case
  proof (cases "skipped f (servo_store w a)")
    case True
    from Cons.IH [of w] True show ?thesis by auto
  next
    case False
    let ?w1 = "settle_servo pstep a w"
    from Cons.IH [of ?w1] obtain new where
      eq: "pwm_writes (settle_loop pstep f rs ?w1) = pwm_writes ?w1 @ new" and
      src: "\<forall>e \<in> set new. \<exists>r \<in> set rs. \<not> skipped f (servo_store ?w1 r) \<and>
        fst e = index (servo_store ?w1 r)"
      by blast
    have "\<forall>e \<in> set new. \<exists>r \<in> set (a # rs). \<not> skipped f (servo_store w r) \<and>
        fst e = index (servo_store w r)"
    proof
      fix e assume "e \<in> set new"
      with src obtain r where r: "r \<in> set rs" "\<not> skipped f (servo_store ?w1 r)"
        "fst e = index (servo_store ?w1 r)" by blast
      show "\<exists>r \<in> set (a # rs). \<not> skipped f (servo_store w r) \<and> fst e = index (servo_store w r)"
      proof (cases "r = a")
        case True
        with r False show ?thesis by (auto simp: settle_servo_store settled_frame)
      next
        case ne: False
        with r show ?thesis by (auto simp: settle_servo_store)
      qed
    qed
    with eq False show ?thesis
      by (auto simp: settle_servo_writes)
  qed
qed

lemma settled_distance:
  assumes "0 < k" "k \<le> 1" "proportional pstep k G" "pid s \<in> G"
  shows "\<bar>goal (position (settled pstep s)) - current (position (settled pstep s))\<bar>
           \<le> \<bar>goal (position s) - current (position s)\<bar>"
    and "pid (settled pstep s) \<in> G"
proof -
  let ?d = "goal (position s) - current (position s)"
  from assms(3,4) have step: "fst (pstep (pid s) ?d) = k * ?d" "snd (pstep (pid s) ?d) \<in> G"
    by (simp_all add: proportional_def)
  have "goal (position (settled pstep s)) - current (position (settled pstep s)) = (1 - k) * ?d"
    using step(1) by (simp add: settled_frame settled_current algebra_simps)
  moreover have "\<bar>(1 - k) * ?d\<bar> = (1 - k) * \<bar>?d\<bar>"
    using assms(2) by (simp add: abs_mult)
  moreover have "(1 - k) * \<bar>?d\<bar> \<le> 1 * \<bar>?d\<bar>"
    using assms(1) by (intro mult_right_mono) simp_all
  ultimately show "\<bar>goal (position (settled pstep s)) - current (position (settled pstep s))\<bar>
           \<le> \<bar>goal (position s) - current (position s)\<bar>" by simp
  show "pid (settled pstep s) \<in> G"
    using step(2) by (simp add: settled_pid)
qed

lemma settle_loop_distance:
  assumes "0 < k" "k \<le> 1" "proportional pstep k G"
  shows "pid (servo_store w r) \<in> G \<Longrightarrow>
         distance (settle_loop pstep f rs w) r \<le> distance w r \<and>
         pid (servo_store (settle_loop pstep f rs w) r) \<in> G"
proof (induction rs arbitrary: w)
  case Nil
  then show ?case by simp
next
  case (Cons a rs)
  let ?w1 = "settle_servo pstep a w"
  have one: "distance ?w1 r \<le> distance w r \<and> pid (servo_store ?w1 r) \<in> G"
  proof (cases "a = r")
    case True
    with settled_distance [OF assms, of "servo_store w r"] Cons.prems show ?thesis
      by (simp add: distance_def settle_servo_store)
  next
    case False
    with Cons.prems show ?thesis
      by (simp add: distance_def settle_servo_store)
  qed
  show ?case
  proof (cases "skipped f (servo_store w a)")
    case True
    with Cons.IH [OF Cons.prems] show ?thesis by simp
  next
    case False
    from one have "pid (servo_store ?w1 r) \<in> G" by simp
    from Cons.IH [OF this] one False show ?thesis by simp
  qed
qed

lemma tick_eq:
  "tick pstep context w =
     (Inr (state context), settle_loop pstep (settleServoFilter (state context))
        (servos_all (servos (state context))) w)"
  by (simp add: tick_def settleServos_def assert_def)

lemma run_ticks_eq:
  "run_ticks pstep ts st w =
     (Inr st, foldl (\<lambda>w t. settle_loop pstep (settleServoFilter st) (servos_all (servos st)) w) w ts)"
  by (induction ts arbitrary: w) (simp_all add: tick_eq)

lemmas rig_defs = rig_def rig_store_def rig_world_def even_index_filter_def rig_tick_def
  rig_scale_def rig_input_def rig_raw_input_def rig_vector_def rig_robot_def rig_state_def
  rig_draws_def rig_sequencer_def rig_booted_def

lemmas ramp_eval = setStartupSettlerFilter_def resume_def for_loop_def while_loop_def activate_def
  pick_servo_def advance.simps set_add_def set_delete_def new_Set_def servos_even_def servos_odd_def
  leave_def Let_def

lemmas lean_eval = normalizeInput_def vectorizeJoystick_def lean_def lean_pressed_def
  lean_released_def set_goal_def Let_def

subsection \<open>The claims about the settler\<close>

text \<open>
  Claim C1. One settler pass, over a collection whose \<^verbatim>\<open>all()\<close> lists every servo once:
  for every servo of \<^verbatim>\<open>all()\<close> that \<^verbatim>\<open>settleServoFilter\<close> admits (every servo when the
  filter is unset), with \<open>error = goal - current\<close> read before the pass,
  \<^verbatim>\<open>position.current\<close> has advanced by exactly \<^verbatim>\<open>pid.step(error)\<close> and the controller
  has made that one step; the driver has received, after its earlier writes, one write
  \<open>(index, 0, current)\<close> per admitted servo, carrying the updated \<^verbatim>\<open>position.current\<close>,
  in the order of \<^verbatim>\<open>all()\<close>.
\<close>

theorem settleServos_contract:
  assumes "distinct (servos_all (servos (state context)))"
  shows "(\<forall>r \<in> set (servos_all (servos (state context))).
            admits (settleServoFilter (state context)) (servo_store w r) \<longrightarrow>
            (let servo = servo_store w r;
                 error = goal (position servo) - current (position servo);
                 servo' = servo_store (snd (settleServos pstep context w)) r
             in current (position servo') = current (position servo) + fst (pstep (pid servo) error) \<and>
                pid servo' = snd (pstep (pid servo) error))) \<and>
         pwm_writes (snd (settleServos pstep context w)) =
           pwm_writes w @
           map (\<lambda>r. (index (servo_store w r), 0,
                     current (position (servo_store (snd (settleServos pstep context w)) r))))
             (filter (\<lambda>r. admits (settleServoFilter (state context)) (servo_store w r))
                (servos_all (servos (state context))))"
proof -
  let ?f = "settleServoFilter (state context)"
  let ?all = "servos_all (servos (state context))"
  have w': "snd (settleServos pstep context w) = settle_loop pstep ?f ?all w"
    by (simp add: settleServos_def)
  have store: "\<And>r. r \<in> set ?all \<Longrightarrow> admits ?f (servo_store w r) \<Longrightarrow>
      servo_store (settle_loop pstep ?f ?all w) r = settled pstep (servo_store w r)"
    using assms by (simp add: settle_loop_store skipped_iff)
  have one: "\<forall>r \<in> set ?all. admits ?f (servo_store w r) \<longrightarrow>
            (let servo = servo_store w r;
                 error = goal (position servo) - current (position servo);
                 servo' = servo_store (snd (settleServos pstep context w)) r
             in current (position servo') = current (position servo) + fst (pstep (pid servo) error) \<and>
                pid servo' = snd (pstep (pid servo) error))"
    by (simp add: w' store Let_def settled_current settled_pid)
  have "map (\<lambda>r. (index (servo_store w r), 0::nat,
                     current (position (servo_store (settle_loop pstep ?f ?all w) r))))
             (filter (\<lambda>r. admits ?f (servo_store w r)) ?all) =
        map (\<lambda>r. (index (servo_store w r), 0,
                     current (position (settled pstep (servo_store w r)))))
             (filter (\<lambda>r. admits ?f (servo_store w r)) ?all)"
    by (rule map_cong) (simp_all add: store)
  then have two: "pwm_writes (snd (settleServos pstep context w)) =
           pwm_writes w @
           map (\<lambda>r. (index (servo_store w r), 0,
                     current (position (servo_store (snd (settleServos pstep context w)) r))))
             (filter (\<lambda>r. admits ?f (servo_store w r)) ?all)"
    using assms by (simp add: w' settle_loop_writes skipped_iff)
  from one two show ?thesis by blast
qed

text \<open>
  On the rig, with the filter of even indices and a proportional controller of gain 1/2:
  servos 0 and 2 are written, in this order, and servo 2 moves from 0 to 8, half of the
  way to its goal 16.
\<close>

theorem settleServos_contract_witness:
  "distinct (servos_all (servos (state rig_tick))) \<and>
   current (position (servo_store (snd (settleServos (p_step (1/2)) rig_tick rig_world)) 2)) = 8 \<and>
   pwm_writes (snd (settleServos (p_step (1/2)) rig_tick rig_world)) = [(0, 0, 4), (2, 0, 8)]"
proof -
  have d: "distinct (servos_all (servos (state rig_tick)))"
    by (simp add: rig_defs)
  from settleServos_contract [OF d, of rig_world "p_step (1/2)"] d show ?thesis
    by (simp add: rig_defs admits_def p_step_def)
qed


text \<open>
  Claim C4. In a settler pass with \<^verbatim>\<open>settleServoFilter\<close> set, a servo for which the filter
  returns false is left exactly as it was: its \<^verbatim>\<open>position.current\<close> is unchanged and so
  is its controller, on which \<^verbatim>\<open>pid.step\<close> was not called. Every write of the pass comes
  from a servo of \<^verbatim>\<open>all()\<close> that the filter admits, so where the servos' indices are
  unique, the driver receives no write at the index of the servo that was filtered out.
\<close>

theorem settleServos_filter_exclusive:
  assumes "settleServoFilter (state context) = Some f"
    and "\<not> f (servo_store w r)"
  shows "servo_store (snd (settleServos pstep context w)) r = servo_store w r \<and>
         (\<forall>e \<in> set (new_writes w (snd (settleServos pstep context w))).
            \<exists>r' \<in> set (servos_all (servos (state context))).
              f (servo_store w r') \<and> fst e = index (servo_store w r')) \<and>
         (inj_on (\<lambda>r. index (servo_store w r)) (insert r (set (servos_all (servos (state context)))))
            \<longrightarrow> index (servo_store w r) \<notin> fst ` set (new_writes w (snd (settleServos pstep context w))))"
proof -
  let ?all = "servos_all (servos (state context))"
  let ?w' = "snd (settleServos pstep context w)"
  have w': "?w' = settle_loop pstep (Some f) ?all w"
    using assms(1) by (simp add: settleServos_def)
  have skip: "skipped (Some f) (servo_store w r)"
    using assms(2) by (simp add: skipped_def)
  have one: "servo_store ?w' r = servo_store w r"
    unfolding w' by (rule settle_loop_skipped [OF skip])
  from settle_loop_writes_from [of pstep "Some f" ?all w] obtain new where
    new: "pwm_writes ?w' = pwm_writes w @ new" and
    src: "\<forall>e \<in> set new. \<exists>r' \<in> set ?all. \<not> skipped (Some f) (servo_store w r') \<and>
        fst e = index (servo_store w r')"
    unfolding w' by blast
  have nw: "new_writes w ?w' = new"
    by (simp add: new_writes_def new)
  have two: "\<forall>e \<in> set (new_writes w ?w').
            \<exists>r' \<in> set ?all. f (servo_store w r') \<and> fst e = index (servo_store w r')"
    using src unfolding nw by (simp add: skipped_def)
  have three: "index (servo_store w r) \<notin> fst ` set (new_writes w ?w')"
    if inj: "inj_on (\<lambda>r. index (servo_store w r)) (insert r (set ?all))"
  proof
    assume "index (servo_store w r) \<in> fst ` set (new_writes w ?w')"
    then obtain e where e: "e \<in> set (new_writes w ?w')" "fst e = index (servo_store w r)"
      by force
    with two obtain r' where r': "r' \<in> set ?all" "f (servo_store w r')"
      "fst e = index (servo_store w r')" by blast
    with e have "index (servo_store w r') = index (servo_store w r)" by simp
    from inj_onD [OF inj this] r'(1) have "r' = r" by simp
    with r'(2) assms(2) show False by simp
  qed
  from one two three show ?thesis by blast
qed

text \<open>On the rig, servo 1 is filtered out by the filter of even indices.\<close>

theorem settleServos_filter_exclusive_witness:
  "settleServoFilter (state rig_tick) = Some even_index_filter \<and>
   \<not> even_index_filter (servo_store rig_world 1) \<and>
   inj_on (\<lambda>r. index (servo_store rig_world r)) (insert 1 (set (servos_all (servos (state rig_tick))))) \<and>
   servo_store (snd (settleServos (p_step (1/2)) rig_tick rig_world)) 1 = servo_store rig_world 1 \<and>
   index (servo_store rig_world 1) \<notin>
     fst ` set (new_writes rig_world (snd (settleServos (p_step (1/2)) rig_tick rig_world)))"
proof -
  have a: "settleServoFilter (state rig_tick) = Some even_index_filter"
    by (simp add: rig_defs)
  have b: "\<not> even_index_filter (servo_store rig_world 1)"
    by (simp add: rig_defs)
  have c: "inj_on (\<lambda>r. index (servo_store rig_world r))
             (insert 1 (set (servos_all (servos (state rig_tick)))))"
    by (simp add: rig_defs inj_on_def)
  from settleServos_filter_exclusive [OF a b, of "p_step (1/2)"] a b c show ?thesis
    by blast
qed

text \<open>
  Claim C9. A settler pass returns the context it received, and with it the state's
  \<^verbatim>\<open>leaned\<close> and \<^verbatim>\<open>settleServoFilter\<close>; it leaves \<^verbatim>\<open>justLeaned\<close> alone; of every
  servo it leaves the index, \<^verbatim>\<open>position.goal\<close> and \<^verbatim>\<open>position.neutral\<close> unchanged; and
  a servo that is not in \<^verbatim>\<open>all()\<close> is not touched at all.
\<close>

theorem settleServos_frame:
  "fst (settleServos pstep context w) = context \<and>
   leaned (state (fst (settleServos pstep context w))) = leaned (state context) \<and>
   settleServoFilter (state (fst (settleServos pstep context w))) =
     settleServoFilter (state context) \<and>
   justLeaned (snd (settleServos pstep context w)) = justLeaned w \<and>
   (\<forall>r. index (servo_store (snd (settleServos pstep context w)) r) = index (servo_store w r) \<and>
        goal (position (servo_store (snd (settleServos pstep context w)) r)) =
          goal (position (servo_store w r)) \<and>
        neutral (position (servo_store (snd (settleServos pstep context w)) r)) =
          neutral (position (servo_store w r))) \<and>
   (\<forall>r. r \<notin> set (servos_all (servos (state context))) \<longrightarrow>
        servo_store (snd (settleServos pstep context w)) r = servo_store w r)"
  by (simp add: settleServos_def settle_loop_justLeaned settle_loop_frame settle_loop_unvisited)

text \<open>On the rig, reference 7 is not in \<^verbatim>\<open>all()\<close>, and servo 2 keeps its goal 16.\<close>

theorem settleServos_frame_witness:
  "7 \<notin> set (servos_all (servos (state rig_tick))) \<and>
   servo_store (snd (settleServos (p_step (1/2)) rig_tick rig_world)) 7 = servo_store rig_world 7 \<and>
   goal (position (servo_store (snd (settleServos (p_step (1/2)) rig_tick rig_world)) 2)) = 16"
proof -
  have a: "7 \<notin> set (servos_all (servos (state rig_tick)))"
    by (simp add: rig_defs)
  have b: "goal (position (servo_store rig_world 2)) = 16"
    by (simp add: rig_defs)
  from settleServos_frame [of "p_step (1/2)" rig_tick rig_world] a b show ?thesis
    by simp
qed

subsection \<open>Successive ticks\<close>

lemma run_ticks_snoc:
  "snd (run_ticks pstep (ts @ [t]) st w) =
     settle_loop pstep (settleServoFilter st) (servos_all (servos st)) (snd (run_ticks pstep ts st w))"
  by (simp add: run_ticks_eq)

lemma run_ticks_goal:
  "goal (position (servo_store (snd (run_ticks pstep ts st w)) r)) = goal (position (servo_store w r))"
  by (induction ts arbitrary: w) (simp_all add: tick_eq settle_loop_frame)

lemma run_ticks_proportional:
  assumes "0 < k" "k \<le> 1" "proportional pstep k G" "pid (servo_store w r) \<in> G"
  shows "pid (servo_store (snd (run_ticks pstep ts st w)) r) \<in> G"
proof (induction ts rule: rev_induct)
  case Nil
  from assms(4) show ?case by simp
next
  case (snoc t ts)
  from settle_loop_distance [OF assms(1-3) snoc] show ?case
    by (simp only: run_ticks_snoc)
qed

text \<open>
  Claim C6. Let the controller of a servo be purely proportional, \<^verbatim>\<open>step(error) = k * error\<close>
  with a gain \<open>0 < k \<le> 1\<close>, whatever the other servos' controllers and the filter are.
  After every sequence of ticks, one more tick returns normally and leaves the servo's
  distance \<open>|goal - current|\<close> no larger than it was before that tick; the goal stays what
  it was before the first tick.
\<close>

theorem proportional_settling_monotone:
  assumes "0 < k" and "k \<le> 1" and "proportional pstep k G" and "pid (servo_store w r) \<in> G"
  shows "fst (run_ticks pstep (ts @ [t]) st w) = Inr st \<and>
         distance (snd (run_ticks pstep (ts @ [t]) st w)) r \<le> distance (snd (run_ticks pstep ts st w)) r \<and>
         goal (position (servo_store (snd (run_ticks pstep (ts @ [t]) st w)) r)) =
           goal (position (servo_store w r))"
proof -
  have "fst (run_ticks pstep (ts @ [t]) st w) = Inr st"
    by (simp add: run_ticks_eq)
  moreover have "distance (snd (run_ticks pstep (ts @ [t]) st w)) r
      \<le> distance (snd (run_ticks pstep ts st w)) r"
    unfolding run_ticks_snoc
    using settle_loop_distance [OF assms(1-3) run_ticks_proportional [OF assms]] by blast
  ultimately show ?thesis
    by (simp add: run_ticks_goal)
qed

text \<open>
  On the rig with gain 1/2, servo 2 (goal 16) is at distance 8 after one tick and at
  distance 4 after two.
\<close>

theorem proportional_settling_monotone_witness:
  "(0::real) < 1/2 \<and> (1/2::real) \<le> 1 \<and> proportional (p_step (1/2)) (1/2) UNIV \<and>
   pid (servo_store rig_world 2) \<in> UNIV \<and>
   distance (snd (run_ticks (p_step (1/2)) [10, 10] (state rig_tick) rig_world)) 2 = 4 \<and>
   distance (snd (run_ticks (p_step (1/2)) [10] (state rig_tick) rig_world)) 2 = 8 \<and>
   distance (snd (run_ticks (p_step (1/2)) ([10] @ [10]) (state rig_tick) rig_world)) 2
     \<le> distance (snd (run_ticks (p_step (1/2)) [10] (state rig_tick) rig_world)) 2"
proof -
  have a: "(0::real) < 1/2" and b: "(1/2::real) \<le> 1" by simp_all
  have c: "proportional (p_step (1/2)) (1/2) UNIV"
    by (simp add: proportional_def p_step_def)
  have c': "pid (servo_store rig_world 2) \<in> UNIV" by simp
  have d: "distance (snd (run_ticks (p_step (1/2)) [10, 10] (state rig_tick) rig_world)) 2 = 4"
    by (simp add: rig_defs tick_def settleServos_def assert_def skipped_def settle_servo_def
        p_step_def distance_def)
  have e: "distance (snd (run_ticks (p_step (1/2)) [10] (state rig_tick) rig_world)) 2 = 8"
    by (simp add: rig_defs tick_def settleServos_def assert_def skipped_def settle_servo_def
        p_step_def distance_def)
  from proportional_settling_monotone [OF a b c c', of "[10]" 10 "state rig_tick"] a b c c' d e
  show ?thesis by blast
qed

section \<open>Properties of \<^verbatim>\<open>lean\<close>\<close>

lemma leg_refs_simps [simp]:
  "leg_refs [] = []"
  "leg_refs ((e, s) # legs) = e # s # leg_refs legs"
  "leg_refs (xs @ ys) = leg_refs xs @ leg_refs ys"
  by (simp_all add: leg_refs_def)

lemma set_goal_simps [simp]:
  "servo_store (set_goal r v w) r' =
     (if r' = r then (servo_store w r)\<lparr>position := (position (servo_store w r))\<lparr>goal := v\<rparr>\<rparr>
      else servo_store w r')"
  "justLeaned (set_goal r v w) = justLeaned w"
  "pwm_writes (set_goal r v w) = pwm_writes w"
  by (simp_all add: set_goal_def)

lemma lean_legs_other:
  "r \<notin> set (leg_refs legs) \<Longrightarrow> servo_store (lean_legs scale ex sy legs w) r = servo_store w r"
  by (induction legs arbitrary: w) (auto simp: Let_def)

lemma lean_legs_justLeaned: "justLeaned (lean_legs scale ex sy legs w) = justLeaned w"
proof (induction legs arbitrary: w)
  case Nil
  show ?case by simp
next
  case (Cons p legs)
  obtain e s where p: "p = (e, s)" by (cases p)
  show ?case unfolding p by (simp add: Let_def Cons.IH)
qed

lemma lean_legs_writes: "pwm_writes (lean_legs scale ex sy legs w) = pwm_writes w"
proof (induction legs arbitrary: w)
  case Nil
  show ?case by simp
next
  case (Cons p legs)
  obtain e s where p: "p = (e, s)" by (cases p)
  show ?case unfolding p by (simp add: Let_def Cons.IH)
qed

lemma lean_legs_goal:
  "distinct (leg_refs legs) \<Longrightarrow> (e, s) \<in> set legs \<Longrightarrow>
   goal (position (servo_store (lean_legs scale ex sy legs w) e)) = scale ex (servo_store w e) \<and>
   goal (position (servo_store (lean_legs scale ex sy legs w) s)) = scale sy (servo_store w s)"
proof (induction legs arbitrary: w)
  case Nil
  then show ?case by simp
next
  case (Cons p legs)
  obtain e0 s0 where p: "p = (e0, s0)" by (cases p)
  let ?w1 = "set_goal e0 (scale ex (servo_store w e0)) w"
  let ?w2 = "set_goal s0 (scale sy (servo_store ?w1 s0)) ?w1"
  from Cons.prems(1) p have d: "e0 \<noteq> s0" "e0 \<notin> set (leg_refs legs)" "s0 \<notin> set (leg_refs legs)"
    "distinct (leg_refs legs)" by auto
  have unfold: "lean_legs scale ex sy (p # legs) w = lean_legs scale ex sy legs ?w2"
    by (simp add: p Let_def)
  show ?case
  proof (cases "(e, s) = (e0, s0)")
    case True
    with d show ?thesis
      unfolding unfold by (simp add: lean_legs_other)
  next
    case False
    with Cons.prems(2) p have mem: "(e, s) \<in> set legs" by auto
    then have "e \<in> set (leg_refs legs)" "s \<in> set (leg_refs legs)"
      by (auto simp: leg_refs_def)
    with d have "e \<noteq> e0" "e \<noteq> s0" "s \<noteq> e0" "s \<noteq> s0" by auto
    with Cons.IH [OF d(4) mem, of ?w2] show ?thesis
      unfolding unfold by simp
  qed
qed

lemma leg_refs_mem: "(e, s) \<in> set legs \<Longrightarrow> e \<in> set (leg_refs legs) \<and> s \<in> set (leg_refs legs)"
  by (auto simp: leg_refs_def)

lemma lean_pressed_goals:
  assumes "distinct (leg_refs (legs_left collection @ legs_right collection))"
  shows "(\<forall>(elbow, shoulder) \<in> set (legs_left collection).
            goal (position (servo_store (lean_pressed scale x y collection w) elbow)) =
              scale (- x) (servo_store w elbow) \<and>
            goal (position (servo_store (lean_pressed scale x y collection w) shoulder)) =
              scale y (servo_store w shoulder)) \<and>
         (\<forall>(elbow, shoulder) \<in> set (legs_right collection).
            goal (position (servo_store (lean_pressed scale x y collection w) elbow)) =
              scale (- x) (servo_store w elbow) \<and>
            goal (position (servo_store (lean_pressed scale x y collection w) shoulder)) =
              scale (- y) (servo_store w shoulder))"
proof -
  let ?l = "legs_left collection" and ?r = "legs_right collection"
  let ?w1 = "w\<lparr>justLeaned := True\<rparr>"
  let ?w2 = "lean_legs scale (- x) y ?l ?w1"
  from assms have dl: "distinct (leg_refs ?l)" and dr: "distinct (leg_refs ?r)"
    and disj: "set (leg_refs ?l) \<inter> set (leg_refs ?r) = {}" by auto
  have w': "lean_pressed scale x y collection w = lean_legs scale (- x) (- y) ?r ?w2"
    by (simp add: lean_pressed_def Let_def)
  have left: "goal (position (servo_store (lean_pressed scale x y collection w) e)) =
              scale (- x) (servo_store w e) \<and>
            goal (position (servo_store (lean_pressed scale x y collection w) s)) =
              scale y (servo_store w s)" if "(e, s) \<in> set ?l" for e s
  proof -
    from leg_refs_mem [OF that] disj have "e \<notin> set (leg_refs ?r)" "s \<notin> set (leg_refs ?r)"
      by auto
    with lean_legs_goal [OF dl that, of scale "- x" y ?w1] show ?thesis
      unfolding w' by (simp add: lean_legs_other)
  qed
  have right: "goal (position (servo_store (lean_pressed scale x y collection w) e)) =
              scale (- x) (servo_store w e) \<and>
            goal (position (servo_store (lean_pressed scale x y collection w) s)) =
              scale (- y) (servo_store w s)" if "(e, s) \<in> set ?r" for e s
  proof -
    from leg_refs_mem [OF that] disj have "e \<notin> set (leg_refs ?l)" "s \<notin> set (leg_refs ?l)"
      by auto
    with lean_legs_goal [OF dr that, of scale "- x" "- y" ?w2] show ?thesis
      unfolding w' by (simp add: lean_legs_other)
  qed
  from left right show ?thesis by blast
qed

lemma reset_goals_justLeaned: "justLeaned (reset_goals rs w) = justLeaned w"
  by (induction rs arbitrary: w) simp_all

lemma reset_goals_neutral:
  "neutral (position (servo_store (reset_goals rs w) r)) = neutral (position (servo_store w r))"
  by (induction rs arbitrary: w) simp_all

lemma reset_goals_goal:
  "goal (position (servo_store (reset_goals rs w) r)) =
     (if r \<in> set rs then neutral (position (servo_store w r)) else goal (position (servo_store w r)))"
  by (induction rs arbitrary: w) (auto simp: reset_goals_neutral)

lemma lean_world:
  "snd (lean scale c w) =
     (if lean_button c
      then lean_pressed scale (axis_x (axes_right (input c))) (axis_y (axes_right (input c)))
             (servos (state c)) w
      else if justLeaned w then lean_released (servos (state c)) w
      else w)"
  by (simp add: lean_def lean_button_def Let_def)

lemma lean_keeps_filter:
  "settleServoFilter (state (fst (lean scale c w))) = settleServoFilter (state c) \<and>
   servos (state (fst (lean scale c w))) = servos (state c)"
  by (simp add: lean_def Let_def)

lemma lean_justLeaned: "justLeaned (snd (lean scale c w)) = lean_button c"
  by (simp add: lean_world lean_pressed_def lean_released_def Let_def lean_legs_justLeaned
      reset_goals_justLeaned)

lemma lean_run_length [simp]: "length (lean_run scale cs w) = length cs"
  by (induction cs arbitrary: w) simp_all

lemma lean_run_step:
  "k < length cs \<Longrightarrow>
   lean_run scale cs w ! k = snd (lean scale (cs ! k) ((w # lean_run scale cs w) ! k))"
proof (induction cs arbitrary: w k)
  case Nil
  then show ?case by simp
next
  case (Cons c cs)
  show ?case
  proof (cases k)
    case 0
    then show ?thesis by simp
  next
    case (Suc j)
    let ?w1 = "snd (lean scale c w)"
    from Cons.prems Suc have "j < length cs" by simp
    then have "lean_run scale cs ?w1 ! j =
        snd (lean scale (cs ! j) ((?w1 # lean_run scale cs ?w1) ! j))"
      by (rule Cons.IH)
    moreover have "lean_run scale (c # cs) w ! k = lean_run scale cs ?w1 ! j"
      by (simp add: Suc)
    moreover have "(c # cs) ! k = cs ! j"
      by (simp add: Suc)
    moreover have "(w # lean_run scale (c # cs) w) ! k = (?w1 # lean_run scale cs ?w1) ! j"
      by (simp add: Suc)
    ultimately show ?thesis by (simp only:)
  qed
qed

lemma lean_run_justLeaned:
  "k < length cs \<Longrightarrow> justLeaned (lean_run scale cs w ! k) = lean_button (cs ! k)"
  by (subst lean_run_step) (simp_all only: lean_justLeaned)

subsection \<open>The claims about \<^verbatim>\<open>lean\<close>\<close>

text \<open>
  Claim C3. A call of \<^verbatim>\<open>lean\<close> with the lean button (id 4) pressed and right-stick axes
  \<open>(x, y)\<close>, on legs that share no servo: every pair of \<^verbatim>\<open>legs.left\<close> ends with elbow goal
  \<open>scale (-x) elbow\<close> and shoulder goal \<open>scale y shoulder\<close>, every pair of
  \<^verbatim>\<open>legs.right\<close> with elbow goal \<open>scale (-x) elbow\<close> and shoulder goal
  \<open>scale (-y) shoulder\<close>: the elbows of both sides get the same expression, the shoulders
  differ in the sign of \<open>y\<close> only.
\<close>

theorem lean_mirrored_goals:
  assumes "4 \<in> buttonsPressed (input context)"
    and "distinct (leg_refs (legs_left (servos (state context)) @ legs_right (servos (state context))))"
  shows "let x = axis_x (axes_right (input context));
             y = axis_y (axes_right (input context));
             w' = snd (lean scale context w)
         in (\<forall>(elbow, shoulder) \<in> set (legs_left (servos (state context))).
               goal (position (servo_store w' elbow)) = scale (- x) (servo_store w elbow) \<and>
               goal (position (servo_store w' shoulder)) = scale y (servo_store w shoulder)) \<and>
            (\<forall>(elbow, shoulder) \<in> set (legs_right (servos (state context))).
               goal (position (servo_store w' elbow)) = scale (- x) (servo_store w elbow) \<and>
               goal (position (servo_store w' shoulder)) = scale (- y) (servo_store w shoulder))"
  using assms(1) lean_pressed_goals [OF assms(2)]
  by (simp add: lean_world lean_button_def Let_def)

text \<open>
  On the rig with \<open>(x, y) = (0.5, -0.3)\<close>: the elbows 1 and 3 get \<open>scale (-0.5)\<close>, the left
  shoulder 0 gets \<open>scale (-0.3)\<close> and the right shoulder 2 gets \<open>scale 0.3\<close>.
\<close>

theorem lean_mirrored_goals_witness:
  "4 \<in> buttonsPressed (input (rig_input True)) \<and>
   distinct (leg_refs (legs_left (servos (state (rig_input True))) @
                       legs_right (servos (state (rig_input True))))) \<and>
   map (\<lambda>r. goal (position (servo_store (snd (lean rig_scale (rig_input True) rig_world)) r)))
     [1, 0, 3, 2] =
   [rig_scale (- (1/2)) (rig_store 1), rig_scale (- 3/10) (rig_store 0),
    rig_scale (- (1/2)) (rig_store 3), rig_scale (3/10) (rig_store 2)]"
proof -
  have a: "4 \<in> buttonsPressed (input (rig_input True))"
    by (simp add: rig_input_def)
  have b: "distinct (leg_refs (legs_left (servos (state (rig_input True))) @
                       legs_right (servos (state (rig_input True)))))"
    by (simp add: rig_input_def rig_def)
  from lean_mirrored_goals [OF a b, of rig_scale rig_world] a b show ?thesis
    by (simp add: rig_input_def rig_def rig_world_def Let_def)
qed

text \<open>
  Claim C2. In a sequence of calls of \<^verbatim>\<open>lean\<close>, the reset of the goals to neutral is what
  call \<open>k\<close> does exactly when the lean button is not pressed in call \<open>k\<close> and was pressed
  in call \<open>k - 1\<close> (for the first call: when \<^verbatim>\<open>justLeaned\<close> was set beforehand); it then
  sets the goal of every servo of \<^verbatim>\<open>legs.all()\<close> to its neutral value. A call with the
  button pressed writes the leaning goals instead, and a call with the button released
  after a call with the button released changes nothing at all, so the reset happens once
  per release.
\<close>

theorem lean_edge_triggered:
  assumes "k < length cs"
  shows "let before = (w # lean_run scale cs w) ! k;
             after = lean_run scale cs w ! k;
             c = cs ! k;
             pressed_before = (if k = 0 then justLeaned w else lean_button (cs ! (k - 1)))
         in after =
              (if lean_button c
               then lean_pressed scale (axis_x (axes_right (input c))) (axis_y (axes_right (input c)))
                      (servos (state c)) before
               else if pressed_before then lean_released (servos (state c)) before
               else before) \<and>
            (pressed_before \<and> \<not> lean_button c \<longrightarrow>
               (\<forall>r \<in> set (legs_all (servos (state c))).
                  goal (position (servo_store after r)) = neutral (position (servo_store before r))))"
proof -
  let ?before = "(w # lean_run scale cs w) ! k"
  have jl: "justLeaned ?before = (if k = 0 then justLeaned w else lean_button (cs ! (k - 1)))"
  proof (cases k)
    case 0
    then show ?thesis by simp
  next
    case (Suc j)
    with assms have "j < length cs" by simp
    from lean_run_justLeaned [OF this, of scale w] Suc show ?thesis by simp
  qed
  have after: "lean_run scale cs w ! k = snd (lean scale (cs ! k) ?before)"
    by (rule lean_run_step [OF assms])
  show ?thesis
    unfolding Let_def after lean_world jl
    by (simp add: lean_released_def reset_goals_goal)
qed

text \<open>
  The sequence pressed, pressed, released, released on the rig: the goals of servos 0 to 3
  before the first call and after each call; the third call resets them to neutral (1),
  and the fourth call leaves the world as the third left it.
\<close>

theorem lean_edge_triggered_witness:
  "(2::nat) < length (map rig_input [True, True, False, False]) \<and>
   lean_button (map rig_input [True, True, False, False] ! 1) \<and>
   \<not> lean_button (map rig_input [True, True, False, False] ! 2) \<and>
   lean_run rig_scale (map rig_input [True, True, False, False]) rig_world ! 2 =
     lean_released rig (lean_run rig_scale (map rig_input [True, True, False, False]) rig_world ! 1) \<and>
   map (\<lambda>r. goal (position (servo_store
         (lean_run rig_scale (map rig_input [True, True, False, False]) rig_world ! 2) r)))
     [0, 1, 2, 3] = [1, 1, 1, 1] \<and>
   (3::nat) < length (map rig_input [True, True, False, False]) \<and>
   lean_run rig_scale (map rig_input [True, True, False, False]) rig_world ! 3 =
     lean_run rig_scale (map rig_input [True, True, False, False]) rig_world ! 2 \<and>
   map (\<lambda>w. map (\<lambda>r. goal (position (servo_store w r))) [0, 1, 2, 3])
     (rig_world # lean_run rig_scale (map rig_input [True, True, False, False]) rig_world) =
     [[8, 12, 16, 20], [- 3, - 4, 5, - 2], [- 3, - 4, 5, - 2], [1, 1, 1, 1], [1, 1, 1, 1]]"
proof -
  let ?cs = "map rig_input [True, True, False, False]"
  have a: "(2::nat) < length ?cs" and b: "(3::nat) < length ?cs" by simp_all
  have pressed: "lean_button (?cs ! 0)" "lean_button (?cs ! 1)" "\<not> lean_button (?cs ! 2)"
    "\<not> lean_button (?cs ! 3)"
    by (simp_all add: lean_button_def rig_input_def)
  have rig: "servos (state (?cs ! 2)) = rig" "legs_all rig = [0, 1, 2, 3]"
    by (simp_all add: rig_input_def rig_def)
  have neutral: "map (\<lambda>r. neutral (position (servo_store (lean_run rig_scale ?cs rig_world ! 1) r)))
      [0, 1, 2, 3] = [1, 1, 1, 1]"
    by (simp add: lean_eval rig_defs)
  note at_2 = lean_edge_triggered [OF a, of rig_world rig_scale]
  have reset: "lean_run rig_scale ?cs rig_world ! 2 =
      lean_released rig (lean_run rig_scale ?cs rig_world ! 1)"
    using at_2 pressed rig(1) by (simp add: Let_def)
  have "\<forall>r \<in> set (legs_all rig).
      goal (position (servo_store (lean_run rig_scale ?cs rig_world ! 2) r)) =
      neutral (position (servo_store (lean_run rig_scale ?cs rig_world ! 1) r))"
    using at_2 pressed rig(1) by (auto simp add: Let_def)
  with neutral have neutral_goals:
    "map (\<lambda>r. goal (position (servo_store (lean_run rig_scale ?cs rig_world ! 2) r))) [0, 1, 2, 3] =
      [1, 1, 1, 1]"
    by (simp add: rig(2))
  have idle: "lean_run rig_scale ?cs rig_world ! 3 = lean_run rig_scale ?cs rig_world ! 2"
    using lean_edge_triggered [OF b, of rig_world rig_scale] pressed
    by (simp add: Let_def)
  have goals: "map (\<lambda>w. map (\<lambda>r. goal (position (servo_store w r))) [0, 1, 2, 3])
     (rig_world # lean_run rig_scale ?cs rig_world) =
     [[8, 12, 16, 20], [- 3, - 4, 5, - 2], [- 3, - 4, 5, - 2], [1, 1, 1, 1], [1, 1, 1, 1]]"
    by (simp add: lean_eval rig_defs)
  from a b pressed(2,3) reset neutral_goals idle goals show ?thesis by blast
qed

section \<open>Properties of the input step\<close>









lemma lean_context:
  "fst (lean scale c w) = c\<lparr>state := (state c)\<lparr>leaned := lean_button c\<rparr>\<rparr>"
  by (simp add: lean_def lean_button_def Let_def)

lemma step_eq:
  "step vfj scale move stand context w =
     (let c2 = fst (lean scale (normalizeInput vfj context) w);
          w2 = snd (lean scale (normalizeInput vfj context) w);
          w3 = snd (move c2 w2)
      in case fst (move c2 w2) of
           None \<Rightarrow> (Inl Error, w3)
         | Some c3 \<Rightarrow>
             (case fst (stand c3 w3) of
                None \<Rightarrow> (Inl Error, snd (stand c3 w3))
              | Some c4 \<Rightarrow> (Inr (state c4), snd (stand c3 w3))))"
  by (simp add: step_def assert_def Let_def split: prod.splits option.splits)




subsection \<open>The claim about an aborted step\<close>








section \<open>Properties of the startup ramp\<close>

subsection \<open>The choice of the servo to activate\<close>

lemma advance_eq:
  "advance i n v it =
     (if i < n then (if nat (n - i) - 1 < length it then it ! (nat (n - i) - 1) else None) else v)"
proof (induction "nat (n - i)" arbitrary: i v it)
  case 0
  then have "\<not> i < n" by simp
  then show ?case by (subst advance.simps) simp
next
  case (Suc k)
  then have lt: "i < n" and k: "k = nat (n - (i + 1))" by simp_all
  show ?case
  proof (cases it)
    case Nil
    have "advance i n v it = advance (i + 1) n None []"
      using lt Nil by (subst advance.simps) simp
    also have "\<dots> = None"
      by (simp add: Suc.hyps(1) [OF k])
    finally show ?thesis using lt Nil by simp
  next
    case (Cons x xs)
    have "advance i n v it = advance (i + 1) n x xs"
      using lt Cons by (subst advance.simps) simp
    also have "\<dots> =
        (if i + 1 < n then (if nat (n - (i + 1)) - 1 < length xs then xs ! (nat (n - (i + 1)) - 1) else None)
         else x)"
      by (rule Suc.hyps(1) [OF k])
    also have "\<dots> = (if nat (n - i) - 1 < length it then it ! (nat (n - i) - 1) else None)"
    proof (cases "i + 1 < n")
      case False
      with lt have "nat (n - i) - 1 = 0" by simp
      with False Cons show ?thesis by simp
    next
      case True
      define m where "m = nat (n - (i + 1)) - 1"
      from True have "nat (n - i) - 1 = Suc m" by (simp add: m_def)
      then have "(if nat (n - i) - 1 < length it then it ! (nat (n - i) - 1) else None) =
          (if m < length xs then xs ! m else None)"
        by (simp add: Cons)
      with True show ?thesis by (simp add: m_def)
    qed
    finally show ?thesis using lt by simp
  qed
qed

lemma floor_index_bounds:
  assumes "random_value r" and "xs \<noteq> []"
  shows "0 \<le> \<lfloor>r * real (length xs)\<rfloor> \<and> \<lfloor>r * real (length xs)\<rfloor> < int (length xs)"
proof -
  from assms have pos: "0 < real (length xs)" by simp
  from assms(1) have "0 \<le> r * real (length xs)" by (simp add: random_value_def)
  then have a: "0 \<le> \<lfloor>r * real (length xs)\<rfloor>" by simp
  from assms(1) pos have "r * real (length xs) < 1 * real (length xs)"
    by (intro mult_strict_right_mono) (simp_all add: random_value_def)
  then have "r * real (length xs) < real_of_int (int (length xs))" by simp
  then have "\<lfloor>r * real (length xs)\<rfloor> < int (length xs)" by (simp only: floor_less_iff)
  with a show ?thesis by blast
qed

lemma pick_servo_nth:
  assumes "random_value r" and "xs \<noteq> []"
  shows "pick_servo r xs = xs ! (nat \<lfloor>r * real (length xs)\<rfloor> - 1)"
proof -
  define n where "n = \<lfloor>r * real (length xs)\<rfloor>"
  from assms(2) obtain x xs' where xs: "xs = x # xs'" by (cases xs) auto
  from floor_index_bounds [OF assms] have b: "0 \<le> n" "n < int (length xs)"
    by (simp_all only: n_def)
  have "pick_servo r xs = advance 1 n x xs'"
    unfolding pick_servo_def n_def [symmetric] by (simp add: xs)
  also have "\<dots> = (if 1 < n then (if nat (n - 1) - 1 < length xs' then xs' ! (nat (n - 1) - 1) else None) else x)"
    by (rule advance_eq)
  also have "\<dots> = xs ! (nat n - 1)"
  proof (cases "1 < n")
    case True
    define m where "m = nat (n - 1) - 1"
    from True b have "m < length xs'" by (simp add: xs m_def)
    moreover from True have "nat n - 1 = Suc m" by (simp add: m_def)
    ultimately have "xs' ! m = xs ! (nat n - 1)" "m < length xs'" by (simp_all add: xs)
    with True show ?thesis by (simp add: m_def)
  next
    case False
    with b have "nat n - 1 = 0" by simp
    with False show ?thesis by (simp add: xs)
  qed
  finally show ?thesis by (simp only: n_def)
qed

lemma pick_servo_position:
  assumes "random_value r" and "xs \<noteq> []"
  shows "nat \<lfloor>r * real (length xs)\<rfloor> - 1 < length xs"
proof -
  define n where "n = \<lfloor>r * real (length xs)\<rfloor>"
  from floor_index_bounds [OF assms] have "0 \<le> n" "n < int (length xs)"
    by (simp_all only: n_def)
  then have "nat n - 1 < length xs" by simp
  then show ?thesis by (simp only: n_def)
qed

lemma pick_servo_mem:
  assumes "random_value r" and "xs \<noteq> []"
  shows "pick_servo r xs \<in> set xs"
  using pick_servo_nth [OF assms] pick_servo_position [OF assms] by simp

lemma pick_servo_not_last:
  assumes "random_value r" and "2 \<le> length xs"
  shows "pick_servo r xs \<in> set (butlast xs)"
proof -
  define n where "n = \<lfloor>r * real (length xs)\<rfloor>"
  from assms(2) have ne: "xs \<noteq> []" by auto
  from floor_index_bounds [OF assms(1) ne] have "0 \<le> n" "n < int (length xs)"
    by (simp_all only: n_def)
  with assms(2) have pos: "nat n - 1 < length (butlast xs)" by simp
  then have "butlast xs ! (nat n - 1) \<in> set (butlast xs)" by (rule nth_mem)
  moreover from pos have "butlast xs ! (nat n - 1) = xs ! (nat n - 1)"
    by (simp add: nth_butlast)
  ultimately show ?thesis
    using pick_servo_nth [OF assms(1) ne] by (simp only: n_def)
qed

subsection \<open>The sets, and one resumption\<close>

lemma ahead_steps_pos: "0 < ahead_steps ss"
  by (cases ss) simp_all

lemma steps_left_0: "steps_left ramp = 0 \<longleftrightarrow> pc ramp = Returned"
  using ahead_steps_pos [of "sets_ahead ramp"]
  by (cases "pc ramp") (simp_all add: steps_left_def)

lemma set_add_new: "v \<notin> set s \<Longrightarrow> set_add v s = s @ [v]"
  by (simp add: set_add_def)

lemma set_add_prefix: "prefix s (set_add v s)"
  by (simp add: set_add_def)

lemma set_add_set: "set (set_add v s) = insert v (set s)"
  by (auto simp: set_add_def)

lemma set_add_distinct: "distinct s \<Longrightarrow> distinct (set_add v s)"
  by (simp add: set_add_def)

lemma new_Set_aux:
  "distinct acc \<Longrightarrow>
   distinct (foldl (\<lambda>s v. set_add v s) acc vs) \<and>
   set (foldl (\<lambda>s v. set_add v s) acc vs) = set acc \<union> set vs"
  by (induction vs arbitrary: acc) (auto simp: set_add_set set_add_distinct)

lemma new_Set_distinct: "distinct (new_Set vs)"
  using new_Set_aux [of "[]" vs] by (simp add: new_Set_def)

lemma new_Set_set: "set (new_Set vs) = set vs"
  using new_Set_aux [of "[]" vs] by (simp add: new_Set_def)

lemma activate_props:
  assumes "random_value r" and "servosRemaining ramp \<noteq> []" and "distinct (ramp_values ramp)"
  shows "servosActive (activate r ramp) = servosActive ramp @ [pick_servo r (servosRemaining ramp)]"
    and "pick_servo r (servosRemaining ramp) \<in> set (servosRemaining ramp)"
    and "length (servosRemaining (activate r ramp)) = length (servosRemaining ramp) - 1"
    and "distinct (ramp_values (activate r ramp))"
    and "set (ramp_values (activate r ramp)) = set (ramp_values ramp)"
    and "sets_ahead (activate r ramp) = sets_ahead ramp"
    and "pc (activate r ramp) = pc ramp"
proof -
  let ?v = "pick_servo r (servosRemaining ramp)"
  have mem: "?v \<in> set (servosRemaining ramp)"
    by (rule pick_servo_mem [OF assms(1,2)])
  with assms(3) have new: "?v \<notin> set (servosActive ramp)"
    and ahead: "?v \<notin> set (concat (sets_ahead ramp))"
    and d: "distinct (servosRemaining ramp)"
    by (auto simp: ramp_values_def)
  show "servosActive (activate r ramp) = servosActive ramp @ [?v]"
    using new by (simp add: activate_def Let_def set_add_new)
  show "?v \<in> set (servosRemaining ramp)" by (rule mem)
  show "length (servosRemaining (activate r ramp)) = length (servosRemaining ramp) - 1"
    using d mem
    by (simp add: activate_def Let_def set_delete_def distinct_remove1_removeAll [symmetric]
        length_remove1)
  show "distinct (ramp_values (activate r ramp))"
    using assms(3) new ahead mem
    by (auto simp: ramp_values_def activate_def Let_def set_add_new set_delete_def distinct_removeAll)
  show "set (ramp_values (activate r ramp)) = set (ramp_values ramp)"
    using new mem
    by (auto simp: ramp_values_def activate_def Let_def set_add_new set_delete_def)
  show "sets_ahead (activate r ramp) = sets_ahead ramp"
    by (simp add: activate_def Let_def)
  show "pc (activate r ramp) = pc ramp"
    by (simp add: activate_def Let_def)
qed

lemma while_loop_props:
  assumes "random_value r" and "distinct (ramp_values ramp)"
  shows "ramp_inv (while_loop r ramp)"
    and "set (ramp_values (while_loop r ramp)) = set (ramp_values ramp)"
    and "steps_left (while_loop r ramp) =
           length (servosRemaining ramp) + ahead_steps (sets_ahead ramp)"
proof -
  show "ramp_inv (while_loop r ramp)"
  proof (cases "servosRemaining ramp = []")
    case True
    with assms(2) show ?thesis
      by (simp add: while_loop_def ramp_inv_def ramp_values_def)
  next
    case False
    from activate_props(4) [OF assms(1) False assms(2)] False show ?thesis
      by (simp add: while_loop_def ramp_inv_def ramp_values_def)
  qed
  show "set (ramp_values (while_loop r ramp)) = set (ramp_values ramp)"
  proof (cases "servosRemaining ramp = []")
    case True
    then show ?thesis by (simp add: while_loop_def ramp_values_def)
  next
    case False
    from activate_props(5) [OF assms(1) False assms(2)] False show ?thesis
      by (simp add: while_loop_def ramp_values_def)
  qed
  show "steps_left (while_loop r ramp) =
           length (servosRemaining ramp) + ahead_steps (sets_ahead ramp)"
  proof (cases "servosRemaining ramp = []")
    case True
    then show ?thesis by (simp add: while_loop_def steps_left_def)
  next
    case False
    from activate_props(3,6) [OF assms(1) False assms(2)] False show ?thesis
      by (simp add: while_loop_def steps_left_def)
  qed
qed

lemma for_loop_props:
  assumes "random_value r" and "ramp_inv ramp" and "pc ramp = Wait_200"
  shows "ramp_inv (for_loop r ramp)"
    and "set (ramp_values (for_loop r ramp)) = set (ramp_values ramp)"
    and "Suc (steps_left (for_loop r ramp)) = steps_left ramp"
proof -
  from assms(2,3) have d: "distinct (ramp_values ramp)" and e: "servosRemaining ramp = []"
    by (simp_all add: ramp_inv_def)
  show "ramp_inv (for_loop r ramp)"
  proof (cases "sets_ahead ramp")
    case Nil
    with d e show ?thesis by (simp add: for_loop_def ramp_inv_def ramp_values_def)
  next
    case (Cons s ss)
    let ?ramp = "ramp\<lparr>servosRemaining := s, sets_ahead := ss\<rparr>"
    from d e Cons have "distinct (ramp_values ?ramp)" by (simp add: ramp_values_def)
    from while_loop_props(1) [OF assms(1) this] Cons show ?thesis by (simp add: for_loop_def)
  qed
  show "set (ramp_values (for_loop r ramp)) = set (ramp_values ramp)"
  proof (cases "sets_ahead ramp")
    case Nil
    then show ?thesis by (simp add: for_loop_def ramp_values_def)
  next
    case (Cons s ss)
    let ?ramp = "ramp\<lparr>servosRemaining := s, sets_ahead := ss\<rparr>"
    from d e Cons have dd: "distinct (ramp_values ?ramp)" by (simp add: ramp_values_def)
    have "set (ramp_values ?ramp) = set (ramp_values ramp)"
      using e Cons by (simp add: ramp_values_def)
    with while_loop_props(2) [OF assms(1) dd] Cons show ?thesis by (simp add: for_loop_def)
  qed
  show "Suc (steps_left (for_loop r ramp)) = steps_left ramp"
  proof (cases "sets_ahead ramp")
    case Nil
    with assms(3) show ?thesis by (simp add: for_loop_def steps_left_def)
  next
    case (Cons s ss)
    let ?ramp = "ramp\<lparr>servosRemaining := s, sets_ahead := ss\<rparr>"
    from d e Cons have dd: "distinct (ramp_values ?ramp)" by (simp add: ramp_values_def)
    from while_loop_props(3) [OF assms(1) dd] Cons assms(3) show ?thesis
      by (simp add: for_loop_def steps_left_def)
  qed
qed

subsection \<open>Runs of the sequencer\<close>

lemma start_eq: "setStartupSettlerFilter w st r = resume r (ramp_init w st, st)"
  by (simp add: setStartupSettlerFilter_def resume_def ramp_init_def Let_def)

lemma resume_Returned: "pc (fst rs) = Returned \<Longrightarrow> resume r rs = rs"
  by (simp add: resume_def)

lemma resume_inv:
  assumes "random_value r" and "ramp_inv (fst rs)"
  shows "ramp_inv (fst (resume r rs)) \<and>
         set (ramp_values (fst (resume r rs))) = set (ramp_values (fst rs)) \<and>
         steps_left (fst (resume r rs)) = steps_left (fst rs) - 1"
proof (cases "pc (fst rs)")
  case Wait_50
  from assms(2) have d: "distinct (ramp_values (fst rs))" by (simp add: ramp_inv_def)
  from while_loop_props [OF assms(1) d] Wait_50 show ?thesis
    by (simp add: resume_def Let_def steps_left_def)
next
  case Wait_200
  from for_loop_props [OF assms Wait_200] Wait_200 show ?thesis
    by (simp add: resume_def Let_def)
next
  case Returned
  then show ?thesis using assms(2) by (simp add: resume_def steps_left_def)
qed

lemma while_loop_prefix: "prefix (servosActive ramp) (servosActive (while_loop r ramp))"
  by (simp add: while_loop_def activate_def Let_def set_add_prefix)

lemma for_loop_prefix: "prefix (servosActive ramp) (servosActive (for_loop r ramp))"
proof (cases "sets_ahead ramp")
  case Nil
  then show ?thesis by (simp add: for_loop_def)
next
  case (Cons s ss)
  from while_loop_prefix [of "ramp\<lparr>servosRemaining := s, sets_ahead := ss\<rparr>" r] Cons
  show ?thesis by (simp add: for_loop_def)
qed

lemma resume_prefix: "prefix (servosActive (fst rs)) (servosActive (fst (resume r rs)))"
  by (cases "pc (fst rs)") (simp_all add: resume_def Let_def while_loop_prefix for_loop_prefix)

lemma leave_leave: "leave ramp (leave ramp' st) = leave ramp st"
  by (cases "pc ramp"; cases "pc ramp'") (simp_all add: leave_def)

lemma resume_linked: "linked rs \<Longrightarrow> linked (resume r rs)"
  by (cases "pc (fst rs)") (simp_all add: resume_def Let_def linked_def leave_leave)

lemma start_linked: "linked (setStartupSettlerFilter w st r)"
  by (simp add: setStartupSettlerFilter_def Let_def linked_def leave_leave)

lemma leave_frame: "servos (leave ramp st) = servos st \<and> leaned (leave ramp st) = leaned st"
  by (cases "pc ramp") (simp_all add: leave_def)

lemma resume_frame:
  "servos (snd (resume r rs)) = servos (snd rs) \<and> leaned (snd (resume r rs)) = leaned (snd rs)"
  by (cases "pc (fst rs)") (simp_all add: resume_def Let_def leave_frame)

lemma linked_filter:
  "linked rs \<Longrightarrow>
   settleServoFilter (snd rs) =
     (if pc (fst rs) = Returned then None else Some (startup_filter (servosActive (fst rs))))"
  by (cases "pc (fst rs)") (auto simp: linked_def leave_def dest: arg_cong [where f = settleServoFilter])

lemma ramp_trace_length [simp]: "length (ramp_trace draws rs) = Suc (length draws)"
  by (induction draws arbitrary: rs) simp_all

lemma ramp_run_Cons: "ramp_run (r # draws) rs = ramp_run draws (resume r rs)"
proof -
  have "ramp_trace draws (resume r rs) \<noteq> []"
    by (cases draws) simp_all
  then show ?thesis by (simp add: ramp_run_def)
qed

lemma ramp_run_Nil: "ramp_run [] rs = rs"
  by (simp add: ramp_run_def)

lemma ramp_run_last: "ramp_run draws rs = ramp_trace draws rs ! length draws"
  by (induction draws arbitrary: rs) (simp_all add: ramp_run_Cons ramp_run_Nil)

lemma ramp_trace_prefix_first:
  "k \<le> length draws \<Longrightarrow>
   prefix (servosActive (fst rs)) (servosActive (fst (ramp_trace draws rs ! k)))"
proof (induction draws arbitrary: rs k)
  case Nil
  then show ?case by simp
next
  case (Cons r draws)
  show ?case
  proof (cases k)
    case 0
    then show ?thesis by simp
  next
    case (Suc k')
    with Cons.prems have "k' \<le> length draws" by simp
    from Cons.IH [OF this, of "resume r rs"] resume_prefix [of rs r] Suc show ?thesis
      by (auto intro: prefix_order.trans)
  qed
qed

lemma ramp_trace_prefix:
  "j \<le> k \<Longrightarrow> k \<le> length draws \<Longrightarrow>
   prefix (servosActive (fst (ramp_trace draws rs ! j))) (servosActive (fst (ramp_trace draws rs ! k)))"
proof (induction draws arbitrary: rs j k)
  case Nil
  then show ?case by simp
next
  case (Cons r draws)
  show ?case
  proof (cases j)
    case 0
    from ramp_trace_prefix_first [OF Cons.prems(2), of rs] 0 show ?thesis by simp
  next
    case (Suc j')
    with Cons.prems obtain k' where k': "k = Suc k'" "j' \<le> k'" "k' \<le> length draws"
      by (cases k) auto
    from Cons.IH [OF k'(2,3), of "resume r rs"] Suc k'(1) show ?thesis by simp
  qed
qed

lemma ramp_trace_invariant:
  assumes "\<And>r rs. random_value r \<Longrightarrow> P rs \<Longrightarrow> P (resume r rs)"
  shows "\<forall>r \<in> set draws. random_value r \<Longrightarrow> P rs \<Longrightarrow> \<forall>s \<in> set (ramp_trace draws rs). P s"
proof (induction draws arbitrary: rs)
  case Nil
  then show ?case by simp
next
  case (Cons r draws)
  from Cons.prems have "random_value r" "\<forall>r \<in> set draws. random_value r" by simp_all
  from Cons.IH [OF this(2) assms [OF this(1) Cons.prems(2)]] Cons.prems(2) show ?case by simp
qed

lemma ramp_run_returns:
  "\<forall>r \<in> set draws. random_value r \<Longrightarrow> ramp_inv (fst rs) \<Longrightarrow> steps_left (fst rs) \<le> length draws \<Longrightarrow>
   pc (fst (ramp_run draws rs)) = Returned \<and> ramp_inv (fst (ramp_run draws rs)) \<and>
   set (ramp_values (fst (ramp_run draws rs))) = set (ramp_values (fst rs))"
proof (induction draws arbitrary: rs)
  case Nil
  then show ?case by (simp add: ramp_run_Nil steps_left_0)
next
  case (Cons r draws)
  from Cons.prems(1) have r: "random_value r" and rest: "\<forall>r \<in> set draws. random_value r"
    by simp_all
  from resume_inv [OF r Cons.prems(2)] Cons.prems(3)
  have "ramp_inv (fst (resume r rs))" "steps_left (fst (resume r rs)) \<le> length draws"
    "set (ramp_values (fst (resume r rs))) = set (ramp_values (fst rs))"
    by simp_all
  from Cons.IH [OF rest this(1,2)] this(3) show ?case
    by (simp add: ramp_run_Cons)
qed

subsection \<open>The call of the sequencer\<close>

lemma set_add_length: "length (set_add v s) \<le> Suc (length s)"
  by (simp add: set_add_def)

lemma new_Set_length_aux:
  "length (foldl (\<lambda>s v. set_add v s) acc vs) \<le> length acc + length vs"
proof (induction vs arbitrary: acc)
  case Nil
  show ?case by simp
next
  case (Cons v vs)
  from Cons.IH [of "set_add v acc"] set_add_length [of v acc] show ?case by simp
qed

lemma new_Set_length: "length (new_Set vs) \<le> length vs"
  using new_Set_length_aux [of "[]" vs] by (simp add: new_Set_def)

lemma ramp_init_inv: "ramp_inv (ramp_init w st)"
proof -
  let ?f = "\<lambda>s. Some (index (servo_store w s))"
  have "set (map ?f (servos_even w (servos st))) \<inter> set (map ?f (servos_odd w (servos st))) = {}"
    by (auto simp: servos_even_def servos_odd_def)
  then show ?thesis
    by (simp add: ramp_inv_def ramp_init_def ramp_values_def new_Set_distinct new_Set_set)
qed

lemma ramp_init_values:
  "set (ramp_values (ramp_init w st)) =
     (\<lambda>s. Some (index (servo_store w s))) ` set (servos_all (servos st))"
  by (auto simp: ramp_init_def ramp_values_def new_Set_set servos_even_def servos_odd_def)

lemma ramp_init_steps: "steps_left (ramp_init w st) \<le> length (servos_all (servos st)) + 3"
proof -
  let ?f = "\<lambda>s. Some (index (servo_store w s))"
  have "length (new_Set (map ?f (servos_even w (servos st)))) \<le> length (servos_even w (servos st))"
    "length (new_Set (map ?f (servos_odd w (servos st)))) \<le> length (servos_odd w (servos st))"
    using new_Set_length [of "map ?f (servos_even w (servos st))"]
      new_Set_length [of "map ?f (servos_odd w (servos st))"] by simp_all
  moreover have "length (servos_even w (servos st)) + length (servos_odd w (servos st)) =
      length (servos_all (servos st))"
    unfolding servos_even_def servos_odd_def by (rule sum_length_filter_compl)
  ultimately show ?thesis
    by (simp add: steps_left_def ramp_init_def)
qed

lemma start_inv:
  assumes "random_value r0"
  shows "ramp_inv (fst (setStartupSettlerFilter w st r0))"
    and "set (ramp_values (fst (setStartupSettlerFilter w st r0))) =
           (\<lambda>s. Some (index (servo_store w s))) ` set (servos_all (servos st))"
    and "steps_left (fst (setStartupSettlerFilter w st r0)) \<le> length (servos_all (servos st)) + 2"
  using resume_inv [OF assms, of "(ramp_init w st, st)"] ramp_init_inv [of w st]
    ramp_init_values [of w st] ramp_init_steps [of w st]
  by (simp_all add: start_eq)

lemma start_servos: "servos (snd (setStartupSettlerFilter w st r0)) = servos st"
  using resume_frame [of r0 "(ramp_init w st, st)"] by (simp add: start_eq)

lemma ramp_trace_frame:
  "k \<le> length draws \<Longrightarrow> servos (snd (ramp_trace draws rs ! k)) = servos (snd rs)"
proof (induction draws arbitrary: rs k)
  case Nil
  then show ?case by simp
next
  case (Cons r draws)
  show ?case
  proof (cases k)
    case 0
    then show ?thesis by simp
  next
    case (Suc k')
    with Cons.prems have "k' \<le> length draws" by simp
    from Cons.IH [OF this, of "resume r rs"] Suc show ?thesis by (simp add: resume_frame)
  qed
qed

lemma ramp_trace_linked:
  "linked rs \<Longrightarrow> k \<le> length draws \<Longrightarrow> linked (ramp_trace draws rs ! k)"
proof (induction draws arbitrary: rs k)
  case Nil
  then show ?case by simp
next
  case (Cons r draws)
  show ?case
  proof (cases k)
    case 0
    with Cons.prems show ?thesis by simp
  next
    case (Suc k')
    with Cons.prems have "k' \<le> length draws" by simp
    from Cons.IH [OF resume_linked [OF Cons.prems(1)] this] Suc show ?thesis by simp
  qed
qed

lemma ramp_trace_Returned:
  "pc (fst rs) = Returned \<Longrightarrow> k \<le> length draws \<Longrightarrow> ramp_trace draws rs ! k = rs"
proof (induction draws arbitrary: k)
  case Nil
  then show ?case by simp
next
  case (Cons r draws)
  show ?case
  proof (cases k)
    case 0
    then show ?thesis by simp
  next
    case (Suc k')
    with Cons.prems have "k' \<le> length draws" by simp
    from Cons.IH [OF Cons.prems(1) this] Suc Cons.prems(1) show ?thesis
      by (simp add: resume_Returned)
  qed
qed

lemma ramp_trace_Returned_later:
  "j \<le> k \<Longrightarrow> k \<le> length draws \<Longrightarrow> pc (fst (ramp_trace draws rs ! j)) = Returned \<Longrightarrow>
   ramp_trace draws rs ! k = ramp_trace draws rs ! j"
proof (induction draws arbitrary: rs j k)
  case Nil
  then show ?case by simp
next
  case (Cons r draws)
  show ?case
  proof (cases j)
    case 0
    with Cons.prems(3) have "pc (fst rs) = Returned" by simp
    from ramp_trace_Returned [OF this Cons.prems(2)] 0 show ?thesis by simp
  next
    case (Suc j')
    with Cons.prems obtain k' where k': "k = Suc k'" "j' \<le> k'" "k' \<le> length draws"
      by (cases k) auto
    from Cons.prems(3) Suc have "pc (fst (ramp_trace draws (resume r rs) ! j')) = Returned"
      by simp
    from Cons.IH [OF k'(2,3) this] Suc k'(1) show ?thesis by simp
  qed
qed

subsection \<open>The claims about the startup ramp\<close>

lemma settle_loop_unfiltered_writes:
  "\<exists>new. pwm_writes (settle_loop pstep None rs w) = pwm_writes w @ new \<and>
         map fst new = map (\<lambda>r. index (servo_store w r)) rs"
proof (induction rs arbitrary: w)
  case Nil
  show ?case by simp
next
  case (Cons r rs)
  let ?w1 = "settle_servo pstep r w"
  from Cons.IH [of ?w1] obtain new where
    new: "pwm_writes (settle_loop pstep None rs ?w1) = pwm_writes ?w1 @ new"
      "map fst new = map (\<lambda>r. index (servo_store ?w1 r)) rs" by blast
  have "map (\<lambda>r. index (servo_store ?w1 r)) rs = map (\<lambda>r. index (servo_store w r)) rs"
    by (simp add: settle_servo_store settled_frame)
  with new show ?case
    by (simp add: skipped_def settle_servo_writes)
qed

lemma settleServos_unfiltered_indices:
  assumes "settleServoFilter (state context) = None"
  shows "map fst (new_writes w (snd (settleServos pstep context w))) =
           map (\<lambda>r. index (servo_store w r)) (servos_all (servos (state context)))"
proof -
  from settle_loop_unfiltered_writes [of pstep "servos_all (servos (state context))" w]
  obtain new where "pwm_writes (settle_loop pstep None (servos_all (servos (state context))) w) =
      pwm_writes w @ new" "map fst new = map (\<lambda>r. index (servo_store w r)) (servos_all (servos (state context)))"
    by blast
  with assms show ?thesis
    by (simp add: settleServos_def new_writes_def)
qed

text \<open>
  What holds of the state object that the sequencer is called with. Let the sequencer be
  called and then resumed, on values of \<^verbatim>\<open>Math.random()\<close>, at least as often as there are
  servos plus two. Then it has returned, and \<^verbatim>\<open>settleServoFilter\<close> is absent from the
  state it was called with. The active set, which lists its elements in the order in which
  they were added, holds the index of every servo of the collection and holds no index
  twice; at every wait before, the active set was an initial part of it, and no index was
  held twice among the active, the remaining and the sets ahead: every index was moved to
  the active set once. A settler pass on the state object of the sequencer writes every
  servo of \<^verbatim>\<open>all()\<close>.
\<close>

theorem startup_ramp_coverage:
  assumes "\<forall>r \<in> set (r0 # draws). random_value r"
    and "length (servos_all (servos st)) + 2 \<le> length draws"
  shows "let trace = ramp_trace draws (setStartupSettlerFilter w st r0);
             (ramp, st') = ramp_run draws (setStartupSettlerFilter w st r0)
         in pc ramp = Returned \<and>
            settleServoFilter st' = None \<and>
            servos st' = servos st \<and>
            distinct (servosActive ramp) \<and>
            set (servosActive ramp) =
              (\<lambda>s. Some (index (servo_store w s))) ` set (servos_all (servos st)) \<and>
            (\<forall>s \<in> set trace.
               prefix (servosActive (fst s)) (servosActive ramp) \<and> distinct (ramp_values (fst s))) \<and>
            (\<forall>pstep t w'.
               map fst (new_writes w'
                 (snd (settleServos pstep \<lparr>input = (), state = st', timeSince = t\<rparr> w'))) =
               map (\<lambda>r. index (servo_store w' r)) (servos_all (servos st)))"
proof -
  let ?start = "setStartupSettlerFilter w st r0"
  let ?end = "ramp_run draws ?start"
  from assms(1) have r0: "random_value r0" and rest: "\<forall>r \<in> set draws. random_value r"
    by simp_all
  note start = start_inv [OF r0, of w st]
  from start(3) assms(2) have "steps_left (fst ?start) \<le> length draws" by simp
  from ramp_run_returns [OF rest start(1) this]
  have ret: "pc (fst ?end) = Returned" and inv: "ramp_inv (fst ?end)"
    and vals: "set (ramp_values (fst ?end)) = set (ramp_values (fst ?start))" by simp_all
  from inv ret have empty: "servosRemaining (fst ?end) = []" "sets_ahead (fst ?end) = []"
    and d: "distinct (ramp_values (fst ?end))" by (simp_all add: ramp_inv_def)
  from empty have act: "ramp_values (fst ?end) = servosActive (fst ?end)"
    by (simp add: ramp_values_def)
  have end_nth: "?end = ramp_trace draws ?start ! length draws"
    by (rule ramp_run_last)
  have "linked ?end"
    unfolding end_nth by (rule ramp_trace_linked [OF start_linked]) simp
  from linked_filter [OF this] ret have none: "settleServoFilter (snd ?end) = None" by simp
  have serv: "servos (snd ?end) = servos st"
    unfolding end_nth using ramp_trace_frame [of "length draws" draws ?start]
    by (simp add: start_servos)
  have tr: "\<forall>s \<in> set (ramp_trace draws ?start).
      prefix (servosActive (fst s)) (servosActive (fst ?end)) \<and> distinct (ramp_values (fst s))"
  proof
    fix s assume "s \<in> set (ramp_trace draws ?start)"
    then obtain k where k: "k \<le> length draws" "s = ramp_trace draws ?start ! k"
      by (auto simp: in_set_conv_nth less_Suc_eq_le)
    have "prefix (servosActive (fst s)) (servosActive (fst ?end))"
      unfolding end_nth k(2) by (rule ramp_trace_prefix [OF k(1)]) simp
    moreover have "\<forall>s \<in> set (ramp_trace draws ?start). ramp_inv (fst s)"
      by (rule ramp_trace_invariant [where P = "\<lambda>s. ramp_inv (fst s)", OF _ rest start(1)])
        (simp add: resume_inv)
    with \<open>s \<in> set (ramp_trace draws ?start)\<close> have "distinct (ramp_values (fst s))"
      by (simp add: ramp_inv_def)
    ultimately show "prefix (servosActive (fst s)) (servosActive (fst ?end)) \<and>
        distinct (ramp_values (fst s))" by blast
  qed
  have pass: "map fst (new_writes w'
                 (snd (settleServos pstep \<lparr>input = (), state = snd ?end, timeSince = t\<rparr> w'))) =
               map (\<lambda>r. index (servo_store w' r)) (servos_all (servos st))" for pstep t w'
    using settleServos_unfiltered_indices
      [of "\<lparr>input = (), state = snd ?end, timeSince = t\<rparr>" w' pstep] none serv
    by simp
  from ret none serv d vals start(2) tr pass show ?thesis
    by (simp add: act split_beta Let_def)
qed


text \<open>On the rig, with six resumptions for its four servos.\<close>

theorem startup_ramp_coverage_witness:
  "list_all random_value (9/10 # rig_draws) \<and>
   length (servos_all (servos rig_state)) + 2 \<le> length rig_draws \<and>
   pc (fst (ramp_run rig_draws (setStartupSettlerFilter rig_world rig_state (9/10)))) = Returned \<and>
   settleServoFilter (snd (ramp_run rig_draws (setStartupSettlerFilter rig_world rig_state (9/10)))) = None \<and>
   distinct (servosActive (fst (ramp_run rig_draws (setStartupSettlerFilter rig_world rig_state (9/10))))) \<and>
   set (servosActive (fst (ramp_run rig_draws (setStartupSettlerFilter rig_world rig_state (9/10))))) =
     {Some 0, Some 1, Some 2, Some 3}"
proof -
  have a: "\<forall>r \<in> set (9/10 # rig_draws). random_value r"
    by (simp add: rig_draws_def random_value_def)
  have b: "length (servos_all (servos rig_state)) + 2 \<le> length rig_draws"
    by (simp add: rig_draws_def rig_state_def rig_def)
  have c: "(\<lambda>s. Some (index (servo_store rig_world s))) ` set (servos_all (servos rig_state)) =
      {Some 0, Some 1, Some 2, Some 3}"
    by (simp add: rig_defs)
  from a have a': "list_all random_value (9/10 # rig_draws)"
    by (simp only: list_all_iff)
  from startup_ramp_coverage [OF a b, of rig_world] a' b c show ?thesis
    by (simp add: split_beta Let_def)
qed

subsection \<open>The state the orchestrator holds\<close>

text \<open>
  \<^verbatim>\<open>lean\<close> returns a copy of the state it is given, with the filter the state holds
  (\<open>lean_keeps_filter\<close>), and the input listener puts what \<^verbatim>\<open>step\<close> returns in the place
  of the orchestrator's state. From the first input on, the state that the orchestrator
  holds, and that the timer hands to the settler, is another object than the one the
  sequencer was called with. The sequencer never returns before its first wait, so at
  every input that arrives while it runs the filter is installed and is copied.
\<close>

lemma on_input_idle:
  "on_input vfj scale idle_stage idle_stage inp t robot =
     (None,
      \<lparr>robot_state = (robot_state robot)\<lparr>leaned := 4 \<in> set (buttonsPressed inp)\<rparr>,
       robot_world =
         snd (lean scale
                (normalizeInput vfj \<lparr>input = inp, state = robot_state robot, timeSince = t\<rparr>)
                (robot_world robot))\<rparr>)"
  by (simp add: on_input_def step_eq idle_stage_def lean_context lean_button_def
      normalizeInput_def Let_def)


lemma start_not_returned: "pc (fst (setStartupSettlerFilter w st r0)) \<noteq> Returned"
  by (simp add: setStartupSettlerFilter_def for_loop_def while_loop_def activate_def Let_def)

lemma input_during_ramp_keeps_filter:
  "settleServoFilter
     (robot_state (snd (on_input vfj scale idle_stage idle_stage inp t
        \<lparr>robot_state = snd (setStartupSettlerFilter w st r0), robot_world = w\<rparr>))) =
   Some (startup_filter (servosActive (fst (setStartupSettlerFilter w st r0))))"
  using linked_filter [OF start_linked, of w st r0] start_not_returned [of w st r0]
  by (simp add: on_input_idle)

text \<open>
  The filter that such a copy holds is the closure over \<^verbatim>\<open>servosActive\<close>; as a value it
  stands for the membership test of that set as the set is when the filter is called.
  Once the sequencer has returned, the set admits every servo of the collection.
\<close>

lemma startup_filter_admits_all:
  assumes "\<forall>r \<in> set (r0 # draws). random_value r"
    and "length (servos_all (servos st)) + 2 \<le> length draws"
    and "s \<in> set (servos_all (servos st))"
    and "index servo = index (servo_store w s)"
  shows "startup_filter (servosActive (fst (ramp_run draws (setStartupSettlerFilter w st r0)))) servo"
proof -
  let ?start = "setStartupSettlerFilter w st r0"
  let ?end = "ramp_run draws ?start"
  from assms(1) have r0: "random_value r0" and rest: "\<forall>r \<in> set draws. random_value r"
    by simp_all
  note start = start_inv [OF r0, of w st]
  from start(3) assms(2) have "steps_left (fst ?start) \<le> length draws" by simp
  from ramp_run_returns [OF rest start(1) this]
  have ret: "pc (fst ?end) = Returned" and inv: "ramp_inv (fst ?end)"
    and vals: "set (ramp_values (fst ?end)) = set (ramp_values (fst ?start))" by simp_all
  from inv ret have "ramp_values (fst ?end) = servosActive (fst ?end)"
    by (simp add: ramp_inv_def ramp_values_def)
  with vals start(2) assms(3,4) show ?thesis
    by (auto simp: startup_filter_def)
qed


text \<open>
  Claim C10. Take two waits of a run of the sequencer, the wait \<open>j\<close> before the wait \<open>k\<close>
  (whatever values \<^verbatim>\<open>Math.random()\<close> returns). The active set at \<open>j\<close> is an initial part of
  the active set at \<open>k\<close>: indices are added at its end and none is removed. As long as the
  function has not returned, the installed filter is the membership test of the active
  set; so every servo that the filter admits at \<open>j\<close> is admitted at \<open>k\<close>, by the filter or,
  once the function has returned, because the filter is absent.
\<close>

theorem ramp_filter_monotone:
  assumes "j \<le> k" and "k \<le> length draws"
  shows "let trace = ramp_trace draws (setStartupSettlerFilter w st r0);
             (ramp_j, st_j) = trace ! j;
             (ramp_k, st_k) = trace ! k
         in prefix (servosActive ramp_j) (servosActive ramp_k) \<and>
            set (servosActive ramp_j) \<subseteq> set (servosActive ramp_k) \<and>
            (pc ramp_k \<noteq> Returned \<longrightarrow>
               settleServoFilter st_k = Some (startup_filter (servosActive ramp_k))) \<and>
            (\<forall>servo. admits (settleServoFilter st_j) servo \<longrightarrow>
                     admits (settleServoFilter st_k) servo)"
proof -
  let ?trace = "ramp_trace draws (setStartupSettlerFilter w st r0)"
  from assms have j: "j \<le> length draws" by simp
  have pre: "prefix (servosActive (fst (?trace ! j))) (servosActive (fst (?trace ! k)))"
    by (rule ramp_trace_prefix [OF assms])
  then have sub: "set (servosActive (fst (?trace ! j))) \<subseteq> set (servosActive (fst (?trace ! k)))"
    by (rule set_mono_prefix)
  have lj: "linked (?trace ! j)" and lk: "linked (?trace ! k)"
    by (rule ramp_trace_linked [OF start_linked j], rule ramp_trace_linked [OF start_linked assms(2)])
  note fj = linked_filter [OF lj] and fk = linked_filter [OF lk]
  have adm: "admits (settleServoFilter (snd (?trace ! k))) servo"
    if a: "admits (settleServoFilter (snd (?trace ! j))) servo" for servo
  proof (cases "pc (fst (?trace ! k)) = Returned")
    case True
    with fk show ?thesis by (simp add: admits_def)
  next
    case False
    have "pc (fst (?trace ! j)) \<noteq> Returned"
    proof
      assume "pc (fst (?trace ! j)) = Returned"
      from ramp_trace_Returned_later [OF assms this] this False show False by simp
    qed
    with a fj have "Some (index servo) \<in> set (servosActive (fst (?trace ! j)))"
      by (simp add: admits_def startup_filter_def)
    with sub have "Some (index servo) \<in> set (servosActive (fst (?trace ! k)))" by blast
    with False fk show ?thesis by (simp add: admits_def startup_filter_def)
  qed
  from pre sub fk adm show ?thesis
    by (simp add: split_beta Let_def)
qed

text \<open>On the rig: servo 2 is active at the second wait and still admitted at the fifth.\<close>

theorem ramp_filter_monotone_witness:
  "(1::nat) \<le> 4 \<and> 4 \<le> length rig_draws \<and>
   servosActive (fst (ramp_trace rig_draws (setStartupSettlerFilter rig_world rig_state (9/10)) ! 1)) =
     [Some 0, Some 2] \<and>
   prefix [Some 0, Some 2]
     (servosActive (fst (ramp_trace rig_draws (setStartupSettlerFilter rig_world rig_state (9/10)) ! 4))) \<and>
   admits (settleServoFilter (snd (ramp_trace rig_draws (setStartupSettlerFilter rig_world rig_state (9/10)) ! 1)))
     (rig_store 2) \<and>
   admits (settleServoFilter (snd (ramp_trace rig_draws (setStartupSettlerFilter rig_world rig_state (9/10)) ! 4)))
     (rig_store 2)"
proof -
  let ?trace = "ramp_trace rig_draws (setStartupSettlerFilter rig_world rig_state (9/10))"
  have a: "(1::nat) \<le> 4" and b: "4 \<le> length rig_draws"
    by (simp_all add: rig_draws_def)
  have c: "servosActive (fst (?trace ! 1)) = [Some 0, Some 2]"
    by (simp add: ramp_eval rig_defs)
  have d: "admits (settleServoFilter (snd (?trace ! 1))) (rig_store 2)"
    by (simp add: ramp_eval rig_defs admits_def startup_filter_def)
  from ramp_filter_monotone [OF a b, of rig_world rig_state "9/10"] a b c d show ?thesis
    by (simp add: split_beta Let_def)
qed

text \<open>
  Claim C8 does not hold of the code. For every value \<open>r\<close> of \<^verbatim>\<open>Math.random()\<close>, with
  \<open>n \<ge> 2\<close> indices remaining, the index chosen is the one at position
  \<open>max (\<lfloor>r n\<rfloor> - 1) 0\<close> of the remaining set (\<open>pick_servo_nth\<close>): the iterator is
  advanced once less than \<open>index\<close> asks for. So the last of the remaining indices is chosen
  for no \<open>r\<close> at all, and the first one for every \<open>r < 2 / n\<close>, twice the share of \<open>1 / n\<close>.
\<close>

theorem pick_servo_never_last:
  assumes "random_value r" and "2 \<le> length remaining" and "distinct remaining"
  shows "pick_servo r remaining \<noteq> last remaining \<and>
         (r * real (length remaining) < 2 \<longrightarrow>
            pick_servo r remaining = hd remaining)"
proof -
  from assms(2) have ne: "remaining \<noteq> []" by auto
  then have "remaining = butlast remaining @ [last remaining]" by simp
  with assms(3) have "distinct (butlast remaining @ [last remaining])" by simp
  then have "last remaining \<notin> set (butlast remaining)" by simp
  with pick_servo_not_last [OF assms(1,2)]
  have one: "pick_servo r remaining \<noteq> last remaining" by auto
  have two: "pick_servo r remaining = hd remaining"
    if "r * real (length remaining) < 2"
  proof -
    define n where "n = \<lfloor>r * real (length remaining)\<rfloor>"
    from that have "n < 2" unfolding n_def by (simp add: floor_less_iff)
    then have "nat n - 1 = 0" by simp
    with pick_servo_nth [OF assms(1) ne] ne show ?thesis
      by (simp add: n_def [symmetric] hd_conv_nth)
  qed
  from one two show ?thesis by blast
qed

text \<open>
  With the indices 0 and 2 remaining and \<open>r = 0.9\<close>, a uniform choice takes 2; the code
  takes 0.
\<close>

theorem pick_servo_never_last_witness:
  "random_value (9/10) \<and> 2 \<le> length [Some 0, Some (2::nat)] \<and> distinct [Some 0, Some (2::nat)] \<and>
   pick_servo (9/10) [Some 0, Some 2] = Some 0 \<and>
   pick_servo (9/10) [Some 0, Some 2] \<noteq> last [Some 0, Some 2]"
proof -
  have a: "random_value (9/10)" by (simp add: random_value_def)
  have b: "2 \<le> length [Some 0, Some (2::nat)]" by simp
  have c: "distinct [Some 0, Some (2::nat)]" by simp
  have d: "pick_servo (9/10) [Some 0, Some 2] = Some 0"
    by (simp add: pick_servo_def advance.simps)
  from pick_servo_never_last [OF a b c] a b c d show ?thesis by blast
qed

end
